theory Spec2Isabelle
  imports Main
begin

section \<open>Common notions\<close>

text \<open>
  The repository holds two implementations of \<^verbatim>\<open>circular_queue<T>\<close>:
  \<^item> the header-only class with the fields \<^verbatim>\<open>front, rear, size, capacity\<close>
    (constructor that throws, \<^verbatim>\<open>resize\<close>, \<^verbatim>\<open>get_all_elements\<close>,
    \<^verbatim>\<open>get_element_at\<close>); its constants carry the source's names;
  \<^item> the class declared in \<^verbatim>\<open>library.h\<close> and defined in the accompanying
    \<^verbatim>\<open>.cpp\<close> file, with the fields \<^verbatim>\<open>front, rear, size\<close> (where \<^verbatim>\<open>size\<close>
    is the capacity) and the sentinel \<^verbatim>\<open>-1\<close> for the empty queue; its constants are
    prefixed \<open>lib_\<close>.

  A C++ \<^verbatim>\<open>int\<close> is modelled by an \<open>int\<close>. In a reachable state of a queue that
  is not empty, \<open>front + 1\<close> and \<open>rear + 1\<close> are at most the capacity and the count
  lies between 0 and the capacity (lemma \<open>index_sum_in_range\<close>), so that these sums
  stay in the range of a 32-bit \<^verbatim>\<open>int\<close>. The one sum that can leave that range is
  \<open>front + i\<close> (and \<open>front + index\<close>) in the three places that read the queue by position,
  \<^verbatim>\<open>get_all_elements\<close>, \<^verbatim>\<open>get_element_at\<close> and the copy loop of \<^verbatim>\<open>resize\<close>: with a
  capacity above \<open>2^30\<close> and a queue that wraps around the end of the array, \<open>front\<close>
  and \<open>i\<close> are both below the capacity and their sum exceeds \<open>2^31 - 1\<close>. Signed
  overflow is undefined in C++, and the model returns \<open>Undefined_Behaviour\<close> there
  (\<open>overflows\<close>). A failing allocation is not modelled, and
  neither is \<^verbatim>\<open>display\<close>, which assigns to no field of either class (the header
  one prints to \<^verbatim>\<open>std::cout\<close>, the library one hands each element to the logger).

  Every method returns the outcome of the call together with the object after the
  call, so that a \<^verbatim>\<open>throw\<close> is an outcome \<open>Inl e\<close> paired with the object as the
  statements before the \<^verbatim>\<open>throw\<close> left it.
  A remainder by zero, an array access outside the allocation and the signed
  overflow above are undefined in C++; the model checks for them where the source
  does not and returns
  \<open>Undefined_Behaviour\<close>. The logger callback is a flag (is the \<^verbatim>\<open>std::function\<close>
  non-empty) and the list of the messages it has received, oldest first.
\<close>

datatype error =
    Invalid_Argument      \<comment> \<open>\<^verbatim>\<open>std::invalid_argument\<close>\<close>
  | Underflow_Error       \<comment> \<open>\<^verbatim>\<open>std::underflow_error\<close>\<close>
  | Out_Of_Range          \<comment> \<open>\<^verbatim>\<open>std::out_of_range\<close>\<close>
  | Bad_Alloc             \<comment> \<open>\<^verbatim>\<open>std::bad_alloc\<close>: a negative length given to an array allocation\<close>
  | Undefined_Behaviour

text \<open>
  The messages handed to the logger. The source builds them with
  \<^verbatim>\<open>std::to_string\<close>; the model keeps the value itself.
\<close>

datatype 'a event =
    Enqueued 'a           \<comment> \<open>\<^verbatim>\<open>"Enqueued: " + std::to_string(value)\<close>\<close>
  | Dequeued 'a           \<comment> \<open>\<^verbatim>\<open>"Dequeued: " + std::to_string(value)\<close>\<close>
  | Queue_Cleared         \<comment> \<open>\<^verbatim>\<open>"Queue cleared"\<close>\<close>
  | Queue_Resized int     \<comment> \<open>\<^verbatim>\<open>"Queue resized to capacity: " + std::to_string(new_capacity)\<close>\<close>
  | Cannot_Dequeue        \<comment> \<open>\<^verbatim>\<open>"Queue is empty! Cannot dequeue."\<close>\<close>
  | No_Front_Element      \<comment> \<open>\<^verbatim>\<open>"Queue is empty! No front element."\<close>\<close>
  | Peeked_At 'a          \<comment> \<open>\<^verbatim>\<open>"Peeked at: " + std::to_string(arr[front])\<close>\<close>
  | Lib_Queue_Cleared     \<comment> \<open>\<^verbatim>\<open>"Queue cleared."\<close>, with the full stop\<close>

text \<open>The remainder of C++: truncated division, the sign follows the dividend.\<close>

definition c_mod :: "int \<Rightarrow> int \<Rightarrow> int" where
  "c_mod a b = sgn a * (\<bar>a\<bar> mod \<bar>b\<bar>)"

text \<open>
  The values of a 32-bit \<^verbatim>\<open>int\<close>, and the sums of two of them that are none: the
  signed overflow of \<^verbatim>\<open>a + b\<close>. The operands are fields and loop counters of the
  program, hence values of \<^verbatim>\<open>int\<close>.
\<close>

definition c_int :: "int \<Rightarrow> bool" where
  "c_int n \<longleftrightarrow> - 2147483648 \<le> n \<and> n \<le> 2147483647"

definition overflows :: "int \<Rightarrow> int \<Rightarrow> bool" where
  "overflows a b \<longleftrightarrow> c_int a \<and> c_int b \<and> \<not> c_int (a + b)"

text \<open>An index into an array of the given allocation.\<close>

definition valid_index :: "'a list \<Rightarrow> int \<Rightarrow> bool" where
  "valid_index xs i \<longleftrightarrow> 0 \<le> i \<and> i < int (length xs)"

section \<open>The header implementation\<close>

record 'a circular_queue =
  arr :: "'a list"
  front :: int
  rear :: int
  size_q :: int
  capacity :: int
  logger :: bool
  logged :: "'a event list"

text \<open>\<^verbatim>\<open>if (logger) { logger(msg); }\<close>\<close>

definition notify :: "'a event \<Rightarrow> 'a circular_queue \<Rightarrow> 'a circular_queue" where
  "notify e q = (if logger q then q\<lparr>logged := logged q @ [e]\<rparr> else q)"

text \<open>
  The constructor. \<open>dflt\<close> is the value-initialised \<^verbatim>\<open>T()\<close> that
  \<^verbatim>\<open>std::make_unique<T[]>(n)\<close> fills the array with. The member \<^verbatim>\<open>size\<close> has the
  default member initialiser \<^verbatim>\<open>{}\<close>, which is 0.
\<close>

definition circular_queue :: "'a \<Rightarrow> int \<Rightarrow> bool \<Rightarrow> error + 'a circular_queue" where
  "circular_queue dflt n callback =
     (if n \<le> 0 then Inl Invalid_Argument
      else Inr \<lparr>arr = replicate (nat n) dflt, front = - 1, rear = - 1, size_q = 0,
                capacity = n, logger = callback, logged = []\<rparr>)"

definition is_full :: "'a circular_queue \<Rightarrow> bool" where
  "is_full q \<longleftrightarrow> size_q q = capacity q"

definition is_empty :: "'a circular_queue \<Rightarrow> bool" where
  "is_empty q \<longleftrightarrow> size_q q = 0"

definition get_size :: "'a circular_queue \<Rightarrow> int" where
  "get_size q = size_q q"

definition get_capacity :: "'a circular_queue \<Rightarrow> int" where
  "get_capacity q = capacity q"

text \<open>
  \<^verbatim>\<open>
  void enqueue(T value) {
      if (is_full()) { front = (front + 1) % capacity; size--; }
      if (is_empty()) { front = rear = 0; } else { rear = (rear + 1) % capacity; }
      arr[rear] = value;
      size++;
      if (logger) { logger("Enqueued: " + std::to_string(value)); }
  }
  \<close>
\<close>

definition enqueue :: "'a \<Rightarrow> 'a circular_queue \<Rightarrow> (error + unit) \<times> 'a circular_queue" where
  "enqueue v q =
     (if is_full q \<and> capacity q = 0 then (Inl Undefined_Behaviour, q)
      else
        let q1 = (if is_full q
                  then q\<lparr>front := c_mod (front q + 1) (capacity q), size_q := size_q q - 1\<rparr>
                  else q)
        in if \<not> is_empty q1 \<and> capacity q1 = 0 then (Inl Undefined_Behaviour, q1)
           else
             let q2 = (if is_empty q1 then q1\<lparr>front := 0, rear := 0\<rparr>
                       else q1\<lparr>rear := c_mod (rear q1 + 1) (capacity q1)\<rparr>)
             in if \<not> valid_index (arr q2) (rear q2) then (Inl Undefined_Behaviour, q2)
                else (Inr (),
                      notify (Enqueued v)
                        (q2\<lparr>arr := (arr q2)[nat (rear q2) := v], size_q := size_q q2 + 1\<rparr>)))"

text \<open>
  \<^verbatim>\<open>
  T dequeue() {
      if (is_empty()) { throw std::underflow_error("Queue is empty"); }
      T value = arr[front];
      if (front == rear) { front = rear = -1; } else { front = (front + 1) % capacity; }
      size--;
      if (logger) { logger("Dequeued: " + std::to_string(value)); }
      return value;
  }
  \<close>
\<close>

definition dequeue :: "'a circular_queue \<Rightarrow> (error + 'a) \<times> 'a circular_queue" where
  "dequeue q =
     (if is_empty q then (Inl Underflow_Error, q)
      else if \<not> valid_index (arr q) (front q) then (Inl Undefined_Behaviour, q)
      else
        let v = arr q ! nat (front q)
        in if front q \<noteq> rear q \<and> capacity q = 0 then (Inl Undefined_Behaviour, q)
           else
             let q1 = (if front q = rear q then q\<lparr>front := - 1, rear := - 1\<rparr>
                       else q\<lparr>front := c_mod (front q + 1) (capacity q)\<rparr>)
             in (Inr v, notify (Dequeued v) (q1\<lparr>size_q := size_q q1 - 1\<rparr>)))"

text \<open>
  \<^verbatim>\<open>
  T peek() const {
      if (is_empty()) { throw std::underflow_error("Queue is empty"); }
      return arr[front];
  }
  \<close>
\<close>

definition peek :: "'a circular_queue \<Rightarrow> (error + 'a) \<times> 'a circular_queue" where
  "peek q =
     (if is_empty q then (Inl Underflow_Error, q)
      else if \<not> valid_index (arr q) (front q) then (Inl Undefined_Behaviour, q)
      else (Inr (arr q ! nat (front q)), q))"

definition clear :: "'a circular_queue \<Rightarrow> (error + unit) \<times> 'a circular_queue" where
  "clear q = (Inr (), notify Queue_Cleared (q\<lparr>front := - 1, rear := - 1, size_q := 0\<rparr>))"

text \<open>
  The loop of \<^verbatim>\<open>get_all_elements\<close>:
  \<^verbatim>\<open>for (int i = 0; i < size; ++i) elements.push_back(arr[(front + i) % capacity]);\<close>
  Each iteration evaluates \<^verbatim>\<open>front + i\<close> in \<^verbatim>\<open>int\<close>, then the remainder, then the
  access to the array; each of the three can be undefined.
\<close>

function get_all_loop :: "'a circular_queue \<Rightarrow> int \<Rightarrow> 'a list \<Rightarrow> error + 'a list" where
  "get_all_loop q i elements =
     (if i < size_q q then
        (if overflows (front q) i then Inl Undefined_Behaviour
         else if capacity q = 0 then Inl Undefined_Behaviour
         else if \<not> valid_index (arr q) (c_mod (front q + i) (capacity q))
           then Inl Undefined_Behaviour
         else get_all_loop q (i + 1)
                (elements @ [arr q ! nat (c_mod (front q + i) (capacity q))]))
      else Inr elements)"
  by pat_completeness auto
termination
  by (relation "measure (\<lambda>(q, i, elements). nat (size_q q - i))") auto

declare get_all_loop.simps [simp del]

definition get_all_elements ::
  "'a circular_queue \<Rightarrow> (error + 'a list) \<times> 'a circular_queue" where
  "get_all_elements q = (get_all_loop q 0 [], q)"

definition get_element_at ::
  "int \<Rightarrow> 'a circular_queue \<Rightarrow> (error + 'a) \<times> 'a circular_queue" where
  "get_element_at index q =
     (if index < 0 \<or> index \<ge> size_q q then (Inl Out_Of_Range, q)
      else if overflows (front q) index then (Inl Undefined_Behaviour, q)
      else if capacity q = 0 then (Inl Undefined_Behaviour, q)
      else if \<not> valid_index (arr q) (c_mod (front q + index) (capacity q))
        then (Inl Undefined_Behaviour, q)
      else (Inr (arr q ! nat (c_mod (front q + index) (capacity q))), q))"

text \<open>
  The loop of \<^verbatim>\<open>resize\<close>:
  \<^verbatim>\<open>for (int i = 0; i < size; ++i) new_arr[i] = arr[(front + i) % capacity];\<close>
\<close>

function resize_loop :: "'a circular_queue \<Rightarrow> int \<Rightarrow> 'a list \<Rightarrow> error + 'a list" where
  "resize_loop q i new_arr =
     (if i < size_q q then
        (if overflows (front q) i then Inl Undefined_Behaviour
         else if capacity q = 0 then Inl Undefined_Behaviour
         else if \<not> valid_index (arr q) (c_mod (front q + i) (capacity q))
           then Inl Undefined_Behaviour
         else if \<not> valid_index new_arr i then Inl Undefined_Behaviour
         else resize_loop q (i + 1)
                (new_arr[nat i := arr q ! nat (c_mod (front q + i) (capacity q))]))
      else Inr new_arr)"
  by pat_completeness auto
termination
  by (relation "measure (\<lambda>(q, i, new_arr). nat (size_q q - i))") auto

declare resize_loop.simps [simp del]

text \<open>
  \<^verbatim>\<open>
  void resize(int new_capacity) {
      if (new_capacity < size) { throw std::invalid_argument(...); }
      auto new_arr = std::make_unique<T[]>(new_capacity);
      for (...) { ... }
      arr = std::move(new_arr);
      capacity = new_capacity;
      front = 0;
      rear = size - 1;
      if (logger) { logger("Queue resized to capacity: " + std::to_string(new_capacity)); }
  }
  \<close>
  The guard is the only test of \<open>new_capacity\<close>. The model adds the failure of the
  allocation for a negative length, which the guard lets through only if \<open>size\<close> is
  negative.
\<close>

definition resize ::
  "'a \<Rightarrow> int \<Rightarrow> 'a circular_queue \<Rightarrow> (error + unit) \<times> 'a circular_queue" where
  "resize dflt new_capacity q =
     (if new_capacity < size_q q then (Inl Invalid_Argument, q)
      else if new_capacity < 0 then (Inl Bad_Alloc, q)
      else
        case resize_loop q 0 (replicate (nat new_capacity) dflt) of
          Inl e \<Rightarrow> (Inl e, q)
        | Inr new_arr \<Rightarrow>
            (Inr (),
             notify (Queue_Resized new_capacity)
               (q\<lparr>arr := new_arr, capacity := new_capacity, front := 0,
                  rear := size_q q - 1\<rparr>)))"

subsection \<open>The public interface as one step function\<close>

datatype 'a call =
    Enqueue 'a | Dequeue | Peek | Clear | Resize int
  | Get_Element_At int | Get_All_Elements | Is_Full | Is_Empty | Get_Size | Get_Capacity

datatype 'a reply = Done | Element 'a | Elements "'a list" | Flag bool | Number int

fun invoke ::
  "'a \<Rightarrow> 'a call \<Rightarrow> 'a circular_queue \<Rightarrow> (error + 'a reply) \<times> 'a circular_queue" where
  "invoke d (Enqueue v) q = (case enqueue v q of (r, q') \<Rightarrow> (map_sum id (\<lambda>_. Done) r, q'))"
| "invoke d Dequeue q = (case dequeue q of (r, q') \<Rightarrow> (map_sum id Element r, q'))"
| "invoke d Peek q = (case peek q of (r, q') \<Rightarrow> (map_sum id Element r, q'))"
| "invoke d Clear q = (case clear q of (r, q') \<Rightarrow> (map_sum id (\<lambda>_. Done) r, q'))"
| "invoke d (Resize k) q = (case resize d k q of (r, q') \<Rightarrow> (map_sum id (\<lambda>_. Done) r, q'))"
| "invoke d (Get_Element_At i) q =
     (case get_element_at i q of (r, q') \<Rightarrow> (map_sum id Element r, q'))"
| "invoke d Get_All_Elements q =
     (case get_all_elements q of (r, q') \<Rightarrow> (map_sum id Elements r, q'))"
| "invoke d Is_Full q = (Inr (Flag (is_full q)), q)"
| "invoke d Is_Empty q = (Inr (Flag (is_empty q)), q)"
| "invoke d Get_Size q = (Inr (Number (get_size q)), q)"
| "invoke d Get_Capacity q = (Inr (Number (get_capacity q)), q)"

text \<open>The calls that change the queue when they succeed.\<close>

fun mutating :: "'a call \<Rightarrow> bool" where
  "mutating (Enqueue v) = True"
| "mutating Dequeue = True"
| "mutating Clear = True"
| "mutating (Resize k) = True"
| "mutating c = False"

text \<open>
  The objects a program can hold: a constructed queue, and the object after any call
  that had defined behaviour (a call that threw included: the caller may catch the
  exception and go on).
\<close>

inductive reachable :: "'a \<Rightarrow> 'a circular_queue \<Rightarrow> bool" for d :: 'a where
  constructed: "circular_queue d n cb = Inr q \<Longrightarrow> reachable d q"
| called: "reachable d q \<Longrightarrow> invoke d c q = (r, q') \<Longrightarrow> r \<noteq> Inl Undefined_Behaviour
            \<Longrightarrow> reachable d q'"

subsection \<open>Representation invariant and logical contents\<close>

definition invar :: "'a circular_queue \<Rightarrow> bool" where
  "invar q \<longleftrightarrow>
     length (arr q) = nat (capacity q) \<and> 0 \<le> size_q q \<and> size_q q \<le> capacity q \<and>
     (0 < size_q q \<longrightarrow>
        0 \<le> front q \<and> front q < capacity q \<and>
        rear q = (front q + size_q q - 1) mod capacity q)"

text \<open>
  The states in which no read by position overflows: \<open>front + i\<close> is a value of
  \<^verbatim>\<open>int\<close> for every position \<open>i\<close> of the queue.
\<close>

definition reads_in_range :: "'a circular_queue \<Rightarrow> bool" where
  "reads_in_range q \<longleftrightarrow> (\<forall>i. 0 \<le> i \<and> i < size_q q \<longrightarrow> \<not> overflows (front q) i)"

text \<open>The occupied slots, oldest first: \<open>arr[(front + i) % capacity]\<close> for \<open>i < size\<close>.\<close>

definition contents :: "'a circular_queue \<Rightarrow> 'a list" where
  "contents q =
     map (\<lambda>i. arr q ! nat ((front q + int i) mod capacity q)) [0..<nat (size_q q)]"

subsection \<open>Client programs\<close>

text \<open>Enqueue the values of a list one after the other, stopping at the first failure.\<close>

fun enqueue_all ::
  "'a list \<Rightarrow> 'a circular_queue \<Rightarrow> (error + unit) \<times> 'a circular_queue" where
  "enqueue_all [] q = (Inr (), q)"
| "enqueue_all (v # vs) q =
     (case enqueue v q of
        (Inl e, q') \<Rightarrow> (Inl e, q')
      | (Inr u, q') \<Rightarrow> enqueue_all vs q')"

text \<open>
  A single caller that makes a sequence of calls, catches what a call throws and goes
  on: the outcomes of the calls in order, and the object at the end.
\<close>

fun run ::
  "'a \<Rightarrow> 'a call list \<Rightarrow> 'a circular_queue
     \<Rightarrow> (error + 'a reply) list \<times> 'a circular_queue" where
  "run d [] q = ([], q)"
| "run d (c # cs) q =
     (case invoke d c q of (r, q') \<Rightarrow> (case run d cs q' of (rs, q'') \<Rightarrow> (r # rs, q'')))"

section \<open>The implementation behind \<^verbatim>\<open>library.h\<close>\<close>

text \<open>
  The class has no capacity field: \<^verbatim>\<open>size\<close> is the length of the array and never
  changes. Its methods throw nothing; \<^verbatim>\<open>dequeue\<close> and \<^verbatim>\<open>peek\<close> return a
  default-constructed \<^verbatim>\<open>T()\<close>, here \<open>dflt\<close>, on an empty queue.
\<close>

record 'a lib_queue =
  l_arr :: "'a list"
  l_front :: int
  l_rear :: int
  l_size :: int
  l_logger :: bool
  l_logged :: "'a event list"

definition lib_notify :: "'a event \<Rightarrow> 'a lib_queue \<Rightarrow> 'a lib_queue" where
  "lib_notify e l = (if l_logger l then l\<lparr>l_logged := l_logged l @ [e]\<rparr> else l)"

text \<open>
  The constructor checks nothing. \<^verbatim>\<open>new T[size]\<close> throws for a negative length and
  allocates an empty array for length 0; it leaves \<^verbatim>\<open>int\<close> slots uninitialised, and
  \<open>fill\<close> stands for what they hold.
\<close>

definition lib_circular_queue :: "'a \<Rightarrow> int \<Rightarrow> bool \<Rightarrow> error + 'a lib_queue" where
  "lib_circular_queue fill n callback =
     (if n < 0 then Inl Bad_Alloc
      else Inr \<lparr>l_arr = replicate (nat n) fill, l_front = - 1, l_rear = - 1, l_size = n,
                l_logger = callback, l_logged = []\<rparr>)"

definition lib_is_full :: "'a lib_queue \<Rightarrow> error + bool" where
  "lib_is_full l =
     (if l_size l = 0 then Inl Undefined_Behaviour
      else Inr (c_mod (l_rear l + 1) (l_size l) = l_front l))"

definition lib_is_empty :: "'a lib_queue \<Rightarrow> bool" where
  "lib_is_empty l \<longleftrightarrow> l_front l = - 1"

text \<open>
  \<^verbatim>\<open>
  T dequeue() {
      if (is_empty()) {
          if (logger) logger("Queue is empty! Cannot dequeue.");
          return T();
      }
      T value = arr[front];
      if (front == rear) front = rear = -1;
      else front = (front + 1) % size;
      if (logger) logger("Dequeued: " + std::to_string(value));
      return value;
  }
  \<close>
\<close>

definition lib_dequeue :: "'a \<Rightarrow> 'a lib_queue \<Rightarrow> (error + 'a) \<times> 'a lib_queue" where
  "lib_dequeue dflt l =
     (if lib_is_empty l then (Inr dflt, lib_notify Cannot_Dequeue l)
      else if \<not> valid_index (l_arr l) (l_front l) then (Inl Undefined_Behaviour, l)
      else
        let v = l_arr l ! nat (l_front l)
        in if l_front l \<noteq> l_rear l \<and> l_size l = 0 then (Inl Undefined_Behaviour, l)
           else
             let l1 = (if l_front l = l_rear l then l\<lparr>l_front := - 1, l_rear := - 1\<rparr>
                       else l\<lparr>l_front := c_mod (l_front l + 1) (l_size l)\<rparr>)
             in (Inr v, lib_notify (Dequeued v) l1))"

text \<open>
  \<^verbatim>\<open>
  void enqueue(T value) {
      if (is_full()) dequeue();
      if (front == -1) front = 0;
      rear = (rear + 1) % size;
      arr[rear] = value;
      if (logger) logger("Enqueued: " + std::to_string(value));
  }
  \<close>
  The value that \<^verbatim>\<open>dequeue\<close> returns is dropped.
\<close>

definition lib_enqueue ::
  "'a \<Rightarrow> 'a \<Rightarrow> 'a lib_queue \<Rightarrow> (error + unit) \<times> 'a lib_queue" where
  "lib_enqueue dflt v l =
     (case lib_is_full l of
        Inl e \<Rightarrow> (Inl e, l)
      | Inr full \<Rightarrow>
          (case (if full then lib_dequeue dflt l else (Inr dflt, l)) of
             (Inl e, l1) \<Rightarrow> (Inl e, l1)
           | (Inr discarded, l1) \<Rightarrow>
               let l2 = (if l_front l1 = - 1 then l1\<lparr>l_front := 0\<rparr> else l1);
                   l3 = l2\<lparr>l_rear := c_mod (l_rear l2 + 1) (l_size l2)\<rparr>
               in if \<not> valid_index (l_arr l3) (l_rear l3) then (Inl Undefined_Behaviour, l3)
                  else (Inr (),
                        lib_notify (Enqueued v)
                          (l3\<lparr>l_arr := (l_arr l3)[nat (l_rear l3) := v]\<rparr>))))"

text \<open>
  \<^verbatim>\<open>
  T peek() {
      if (is_empty()) {
          if (logger) logger("Queue is empty! No front element.");
          return T();
      }
      if (logger) logger("Peeked at: " + std::to_string(arr[front]));
      return arr[front];
  }
  \<close>
\<close>

definition lib_peek :: "'a \<Rightarrow> 'a lib_queue \<Rightarrow> (error + 'a) \<times> 'a lib_queue" where
  "lib_peek dflt l =
     (if lib_is_empty l then (Inr dflt, lib_notify No_Front_Element l)
      else if \<not> valid_index (l_arr l) (l_front l) then (Inl Undefined_Behaviour, l)
      else (Inr (l_arr l ! nat (l_front l)),
            lib_notify (Peeked_At (l_arr l ! nat (l_front l))) l))"

definition lib_clear :: "'a lib_queue \<Rightarrow> (error + unit) \<times> 'a lib_queue" where
  "lib_clear l = (Inr (), lib_notify Lib_Queue_Cleared (l\<lparr>l_front := - 1, l_rear := - 1\<rparr>))"

datatype 'a lib_call =
    Lib_Enqueue 'a | Lib_Dequeue | Lib_Peek | Lib_Clear | Lib_Is_Full | Lib_Is_Empty

fun lib_invoke ::
  "'a \<Rightarrow> 'a lib_call \<Rightarrow> 'a lib_queue \<Rightarrow> (error + 'a reply) \<times> 'a lib_queue" where
  "lib_invoke d (Lib_Enqueue v) l =
     (case lib_enqueue d v l of (r, l') \<Rightarrow> (map_sum id (\<lambda>_. Done) r, l'))"
| "lib_invoke d Lib_Dequeue l = (case lib_dequeue d l of (r, l') \<Rightarrow> (map_sum id Element r, l'))"
| "lib_invoke d Lib_Peek l = (case lib_peek d l of (r, l') \<Rightarrow> (map_sum id Element r, l'))"
| "lib_invoke d Lib_Clear l = (case lib_clear l of (r, l') \<Rightarrow> (map_sum id (\<lambda>_. Done) r, l'))"
| "lib_invoke d Lib_Is_Full l = (map_sum id Flag (lib_is_full l), l)"
| "lib_invoke d Lib_Is_Empty l = (Inr (Flag (lib_is_empty l)), l)"

inductive lib_reachable :: "'a \<Rightarrow> 'a lib_queue \<Rightarrow> bool" for d :: 'a where
  lib_constructed: "lib_circular_queue fill n cb = Inr l \<Longrightarrow> lib_reachable d l"
| lib_called: "lib_reachable d l \<Longrightarrow> lib_invoke d c l = (r, l')
            \<Longrightarrow> r \<noteq> Inl Undefined_Behaviour \<Longrightarrow> lib_reachable d l'"

fun lib_run ::
  "'a \<Rightarrow> 'a lib_call list \<Rightarrow> 'a lib_queue \<Rightarrow> (error + 'a reply) list \<times> 'a lib_queue" where
  "lib_run d [] l = ([], l)"
| "lib_run d (c # cs) l =
     (case lib_invoke d c l of
        (r, l') \<Rightarrow> (case lib_run d cs l' of (rs, l'') \<Rightarrow> (r # rs, l'')))"

text \<open>
  The class stores no count. The number of occupied slots follows from the two
  indices, and the occupied slots run from \<open>front\<close> to \<open>rear\<close>, in the order in which
  \<^verbatim>\<open>display\<close> walks them.
\<close>

definition lib_count :: "'a lib_queue \<Rightarrow> nat" where
  "lib_count l =
     (if l_front l = - 1 then 0 else nat ((l_rear l - l_front l) mod l_size l) + 1)"

definition lib_contents :: "'a lib_queue \<Rightarrow> 'a list" where
  "lib_contents l =
     map (\<lambda>i. l_arr l ! nat ((l_front l + int i) mod l_size l)) [0..<lib_count l]"

subsection \<open>Relating the two implementations\<close>

text \<open>The call of the header class that corresponds to a call of the library class.\<close>

fun header_call :: "'a lib_call \<Rightarrow> 'a call" where
  "header_call (Lib_Enqueue v) = Enqueue v"
| "header_call Lib_Dequeue = Dequeue"
| "header_call Lib_Peek = Peek"
| "header_call Lib_Clear = Clear"
| "header_call Lib_Is_Full = Is_Full"
| "header_call Lib_Is_Empty = Is_Empty"

text \<open>
  Where the header class throws \<^verbatim>\<open>underflow_error\<close>, the library class returns
  \<^verbatim>\<open>T()\<close>.
\<close>

fun default_on_underflow :: "'a \<Rightarrow> error + 'a reply \<Rightarrow> error + 'a reply" where
  "default_on_underflow d (Inl Underflow_Error) = Inr (Element d)"
| "default_on_underflow d r = r"

text \<open>
  The two objects hold the same queue: same capacity, same indices, and the same
  values in the occupied slots. Without \<^verbatim>\<open>resize\<close>, the header class keeps both
  indices at \<open>-1\<close> whenever it is empty, as the library class does.
\<close>

definition same_queue :: "'a circular_queue \<Rightarrow> 'a lib_queue \<Rightarrow> bool" where
  "same_queue q l \<longleftrightarrow>
     invar q \<and> 0 < capacity q \<and> l_size l = capacity q \<and>
     length (l_arr l) = nat (l_size l) \<and>
     l_front l = front q \<and> l_rear l = rear q \<and>
     (size_q q = 0 \<longrightarrow> front q = - 1 \<and> rear q = - 1) \<and>
     (\<forall>i < nat (size_q q).
        l_arr l ! nat ((front q + int i) mod capacity q) =
        arr q ! nat ((front q + int i) mod capacity q))"

section \<open>Index arithmetic and the effect of each method of the header implementation\<close>

lemma c_mod_nonneg: "0 \<le> a \<Longrightarrow> 0 < b \<Longrightarrow> c_mod a b = a mod b"
  by (simp add: c_mod_def sgn_if)

lemma invar_ctor: "circular_queue d n cb = Inr q \<Longrightarrow> invar q"
  by (auto simp: circular_queue_def invar_def split: if_splits)

lemma mod_succ_step: "0 \<le> (f::int) \<Longrightarrow> 0 < c \<Longrightarrow> ((f + s - 1) mod c + 1) mod c = (f + s) mod c"
  by (metis add.commute add_diff_cancel_left' diff_add_cancel mod_add_left_eq)

lemma enqueue_not_full:
  assumes "invar q" "size_q q < capacity q"
  shows "enqueue v q = (Inr (),
           notify (Enqueued v)
             (q\<lparr>front := (if size_q q = 0 then 0 else front q),
                rear := (if size_q q = 0 then 0 else (front q + size_q q) mod capacity q),
                arr := (arr q)[nat (if size_q q = 0 then 0 else (front q + size_q q) mod capacity q) := v],
                size_q := size_q q + 1\<rparr>))"
  using assms
  apply (simp add: enqueue_def is_full_def is_empty_def Let_def invar_def valid_index_def)
  apply (auto simp: c_mod_nonneg mod_succ_step)
  done

lemma enqueue_full:
  assumes "invar q" "size_q q = capacity q" "0 < capacity q"
  shows "enqueue v q = (Inr (),
           notify (Enqueued v)
             (q\<lparr>front := (front q + 1) mod capacity q,
                rear := front q,
                arr := (arr q)[nat (front q) := v],
                size_q := capacity q\<rparr>))"
proof (cases "capacity q = 1")
  case True
  with assms have "front q = 0" by (simp add: invar_def)
  with True assms show ?thesis
    by (simp add: enqueue_def is_full_def is_empty_def Let_def invar_def valid_index_def)
next
  case False
  with assms show ?thesis
    by (simp add: enqueue_def is_full_def is_empty_def Let_def invar_def valid_index_def
        c_mod_nonneg mod_succ_step)
qed

lemma wrap: "0 \<le> (x::int) \<Longrightarrow> x < 2 * c \<Longrightarrow> x mod c = (if x < c then x else x - c)"
proof (cases "x < c")
  case True
  assume "0 \<le> x"
  with True show ?thesis by simp
next
  case False
  assume "x < 2 * c"
  with False have "(x - c) mod c = x - c" by (intro mod_pos_pos_trivial) auto
  then have "x mod c = x - c" by (simp only: minus_mod_self2)
  with False show ?thesis by simp
qed

lemma invar_enqueue:
  assumes "invar q" "0 < capacity q"
  shows "invar (snd (enqueue v q))"
proof (cases "size_q q = capacity q")
  case True
  with assms show ?thesis
    by (simp add: enqueue_full notify_def) (auto simp: invar_def wrap)
next
  case False
  with assms have lt: "size_q q < capacity q" by (simp add: invar_def)
  with assms show ?thesis
    by (simp add: enqueue_not_full notify_def) (auto simp: invar_def wrap)
qed

lemma contents_notify [simp]: "contents (notify e q) = contents q"
  by (simp add: contents_def notify_def)

lemma length_contents [simp]: "length (contents q) = nat (size_q q)"
  by (simp add: contents_def)

lemma nth_contents:
  "i < nat (size_q q) \<Longrightarrow> contents q ! i = arr q ! nat ((front q + int i) mod capacity q)"
  by (simp add: contents_def)

lemma contents_enqueue_not_full:
  assumes "invar q" "size_q q < capacity q"
  shows "contents (snd (enqueue v q)) = contents q @ [v]"
proof (rule nth_equalityI)
  show "length (contents (snd (enqueue v q))) = length (contents q @ [v])"
    using assms by (auto simp: enqueue_not_full invar_def nat_add_distrib)
next
  fix i assume "i < length (contents (snd (enqueue v q)))"
  with assms have i: "int i \<le> size_q q" by (auto simp: enqueue_not_full invar_def)
  show "contents (snd (enqueue v q)) ! i = (contents q @ [v]) ! i"
  proof (cases "int i = size_q q")
    case True
    with assms show ?thesis
      by (auto simp: enqueue_not_full nth_contents nth_append invar_def wrap)
  next
    case False
    with i assms show ?thesis
      by (auto simp: enqueue_not_full nth_contents nth_append invar_def wrap)
  qed
qed

lemma contents_enqueue_full:
  assumes "invar q" "size_q q = capacity q" "0 < capacity q"
  shows "contents (snd (enqueue v q)) = tl (contents q) @ [v]"
proof (rule nth_equalityI)
  show "length (contents (snd (enqueue v q))) = length (tl (contents q) @ [v])"
    using assms by (auto simp: enqueue_full invar_def)
next
  fix i assume "i < length (contents (snd (enqueue v q)))"
  with assms have i: "int i < capacity q" by (auto simp: enqueue_full invar_def)
  show "contents (snd (enqueue v q)) ! i = (tl (contents q) @ [v]) ! i"
  proof (cases "int i = capacity q - 1")
    case True
    with assms show ?thesis
      by (auto simp: enqueue_full nth_contents nth_append invar_def wrap nth_tl)
  next
    case False
    with i assms show ?thesis
      by (auto simp: enqueue_full nth_contents nth_append invar_def wrap nth_tl algebra_simps)
  qed
qed

lemma dequeue_nonempty:
  assumes "invar q" "0 < size_q q"
  shows "dequeue q = (Inr (arr q ! nat (front q)),
           notify (Dequeued (arr q ! nat (front q)))
             (if size_q q = 1 then q\<lparr>front := - 1, rear := - 1, size_q := 0\<rparr>
              else q\<lparr>front := (front q + 1) mod capacity q, size_q := size_q q - 1\<rparr>))"
proof (cases "size_q q = 1")
  case True
  with assms show ?thesis
    by (simp add: dequeue_def is_empty_def Let_def invar_def valid_index_def)
next
  case False
  with assms have "front q \<noteq> rear q" by (auto simp: invar_def wrap split: if_splits)
  with False assms show ?thesis
    by (auto simp: dequeue_def is_empty_def Let_def invar_def valid_index_def c_mod_nonneg)
qed

lemma dequeue_empty: "size_q q = 0 \<Longrightarrow> dequeue q = (Inl Underflow_Error, q)"
  by (simp add: dequeue_def is_empty_def)

lemma invar_dequeue: 
  assumes "invar q" shows "invar (snd (dequeue q))"
proof (cases "size_q q = 0")
  case True
  with assms show ?thesis by (simp add: dequeue_empty)
next
  case False
  with assms have "0 < size_q q" by (simp add: invar_def)
  with assms show ?thesis
    by (simp add: dequeue_nonempty notify_def) (auto simp: invar_def wrap)
qed

lemma hd_contents:
  assumes "invar q" "0 < size_q q"
  shows "hd (contents q) = arr q ! nat (front q)"
proof -
  from assms have "contents q \<noteq> []" by (auto simp: contents_def)
  then have "hd (contents q) = contents q ! 0" by (simp add: hd_conv_nth)
  with assms show ?thesis by (simp add: nth_contents invar_def)
qed

lemma contents_dequeue:
  assumes "invar q" "0 < size_q q"
  shows "contents (snd (dequeue q)) = tl (contents q)"
proof (rule nth_equalityI)
  show "length (contents (snd (dequeue q))) = length (tl (contents q))"
    using assms by (auto simp: dequeue_nonempty nat_diff_distrib split: if_splits)
next
  fix i assume "i < length (contents (snd (dequeue q)))"
  with assms have i: "int i < size_q q - 1" by (auto simp: dequeue_nonempty split: if_splits)
  with assms show "contents (snd (dequeue q)) ! i = tl (contents q) ! i"
    by (auto simp: dequeue_nonempty nth_contents invar_def wrap nth_tl algebra_simps split: if_splits)
qed

lemma notify_fields [simp]:
  "arr (notify e q) = arr q" "front (notify e q) = front q" "rear (notify e q) = rear q"
  "size_q (notify e q) = size_q q" "capacity (notify e q) = capacity q"
  "logger (notify e q) = logger q"
  by (simp_all add: notify_def)

lemma peek_nonempty:
  assumes "invar q" "0 < size_q q"
  shows "peek q = (Inr (hd (contents q)), q)"
  using assms by (simp add: peek_def is_empty_def hd_contents) (simp add: invar_def valid_index_def)

lemma peek_empty: "size_q q = 0 \<Longrightarrow> peek q = (Inl Underflow_Error, q)"
  by (simp add: peek_def is_empty_def)

lemma invar_clear: "invar q \<Longrightarrow> invar (snd (clear q))"
  by (simp add: clear_def notify_def invar_def)

lemma contents_clear: "contents (snd (clear q)) = []"
  by (simp add: clear_def contents_def)

lemma slot_valid:
  assumes "invar q" "0 \<le> i" "i < size_q q"
  shows "capacity q \<noteq> 0"
    and "c_mod (front q + i) (capacity q) = (front q + i) mod capacity q"
    and "valid_index (arr q) ((front q + i) mod capacity q)"
  using assms by (auto simp: invar_def c_mod_nonneg valid_index_def)

lemma reads_in_range_capacity:
  "invar q \<Longrightarrow> capacity q \<le> 1073741824 \<Longrightarrow> reads_in_range q"
  by (auto simp: reads_in_range_def overflows_def c_int_def invar_def)

lemma reads_in_range_front:
  "size_q q = 0 \<or> front q = 0 \<Longrightarrow> reads_in_range q"
  by (auto simp: reads_in_range_def overflows_def)

lemma reads_in_range_notify [simp]: "reads_in_range (notify e q) = reads_in_range q"
  by (simp add: reads_in_range_def notify_def)

lemma no_overflow:
  "reads_in_range q \<Longrightarrow> 0 \<le> i \<Longrightarrow> i < size_q q \<Longrightarrow> \<not> overflows (front q) i"
  by (simp add: reads_in_range_def)

lemma get_all_loop_invar:
  assumes "invar q" "reads_in_range q" "0 \<le> i" "i \<le> size_q q"
  shows "get_all_loop q i acc =
           Inr (acc @ map (\<lambda>k. arr q ! nat ((front q + int k) mod capacity q))
                        [nat i..<nat (size_q q)])"
  using assms
proof (induction q i acc rule: get_all_loop.induct)
  case (1 q i elements)
  show ?case
  proof (cases "i < size_q q")
    case True
    note sv = slot_valid [OF \<open>invar q\<close> \<open>0 \<le> i\<close> True]
      no_overflow [OF \<open>reads_in_range q\<close> \<open>0 \<le> i\<close> True]
    have upt: "[nat i..<nat (size_q q)] = nat i # [nat (i + 1)..<nat (size_q q)]"
      using True \<open>0 \<le> i\<close> by (simp add: upt_conv_Cons nat_add_distrib)
    have "get_all_loop q (i + 1)
            (elements @ [arr q ! nat (c_mod (front q + i) (capacity q))]) =
          Inr ((elements @ [arr q ! nat (c_mod (front q + i) (capacity q))]) @
               map (\<lambda>k. arr q ! nat ((front q + int k) mod capacity q))
                 [nat (i + 1)..<nat (size_q q)])"
      using True "1.prems" sv by (intro "1.IH") auto
    then show ?thesis
      using True sv \<open>0 \<le> i\<close> by (subst get_all_loop.simps) (simp add: upt)
  next
    case False
    with "1.prems" show ?thesis by (subst get_all_loop.simps) simp
  qed
qed

lemma get_all_elements_contents:
  assumes "invar q" "reads_in_range q"
  shows "get_all_elements q = (Inr (contents q), q)"
proof -
  from assms have "0 \<le> size_q q" by (simp add: invar_def)
  with assms show ?thesis
    by (simp add: get_all_elements_def get_all_loop_invar contents_def)
qed

lemma get_element_at_valid:
  assumes "invar q" "reads_in_range q" "0 \<le> i" "i < size_q q"
  shows "get_element_at i q = (Inr (contents q ! nat i), q)"
  using assms slot_valid [OF assms(1,3,4)] no_overflow [OF assms(2,3,4)]
  by (simp add: get_element_at_def nth_contents)

lemma get_element_at_overflow:
  assumes "0 \<le> i" "i < size_q q" "c_int (front q)" "c_int i" "2147483647 < front q + i"
  shows "get_element_at i q = (Inl Undefined_Behaviour, q)"
  using assms by (simp add: get_element_at_def overflows_def c_int_def)

lemma get_element_at_invalid:
  "i < 0 \<or> size_q q \<le> i \<Longrightarrow> get_element_at i q = (Inl Out_Of_Range, q)"
  by (auto simp: get_element_at_def)

lemma resize_loop_invar:
  assumes "invar q" "reads_in_range q" "0 \<le> i" "i \<le> size_q q"
    "size_q q \<le> int (length new)"
  shows "resize_loop q i new =
           Inr (take (nat i) new @
                map (\<lambda>k. arr q ! nat ((front q + int k) mod capacity q))
                  [nat i..<nat (size_q q)] @
                drop (nat (size_q q)) new)"
  using assms
proof (induction q i new rule: resize_loop.induct)
  case (1 q i new_arr)
  show ?case
  proof (cases "i < size_q q")
    case True
    note sv = slot_valid [OF \<open>invar q\<close> \<open>0 \<le> i\<close> True]
      no_overflow [OF \<open>reads_in_range q\<close> \<open>0 \<le> i\<close> True]
    let ?x = "arr q ! nat ((front q + i) mod capacity q)"
    have vi: "valid_index new_arr i"
      using True "1.prems" by (simp add: valid_index_def)
    have upt: "[nat i..<nat (size_q q)] = nat i # [nat (i + 1)..<nat (size_q q)]"
      using True \<open>0 \<le> i\<close> by (simp add: upt_conv_Cons nat_add_distrib)
    have tk: "take (nat (i + 1)) (new_arr[nat i := ?x]) = take (nat i) new_arr @ [?x]"
      using vi \<open>0 \<le> i\<close> take_Suc_conv_app_nth [of "nat i" "new_arr[nat i := ?x]"]
      by (simp add: nat_add_distrib valid_index_def)
    have dr: "drop (nat (size_q q)) (new_arr[nat i := ?x]) = drop (nat (size_q q)) new_arr"
      using True \<open>0 \<le> i\<close> by simp
    have "resize_loop q (i + 1)
            (new_arr[nat i := arr q ! nat (c_mod (front q + i) (capacity q))]) =
          Inr (take (nat (i + 1))
                 (new_arr[nat i := arr q ! nat (c_mod (front q + i) (capacity q))]) @
               map (\<lambda>k. arr q ! nat ((front q + int k) mod capacity q))
                 [nat (i + 1)..<nat (size_q q)] @
               drop (nat (size_q q))
                 (new_arr[nat i := arr q ! nat (c_mod (front q + i) (capacity q))]))"
      using True "1.prems" sv vi by (intro "1.IH") auto
    then have ih: "resize_loop q (i + 1) (new_arr[nat i := ?x]) =
          Inr (take (nat i) new_arr @ [?x] @
               map (\<lambda>k. arr q ! nat ((front q + int k) mod capacity q))
                 [nat (i + 1)..<nat (size_q q)] @
               drop (nat (size_q q)) new_arr)"
      by (simp only: sv(2) tk dr append_assoc)
    have "resize_loop q i new_arr = resize_loop q (i + 1) (new_arr[nat i := ?x])"
      using True sv vi by (subst resize_loop.simps) simp
    with ih show ?thesis
      using \<open>0 \<le> i\<close> by (simp add: upt)
  next
    case False
    with "1.prems" show ?thesis by (subst resize_loop.simps) simp
  qed
qed

lemma resize_too_small: "k < size_q q \<Longrightarrow> resize d k q = (Inl Invalid_Argument, q)"
  by (simp add: resize_def)

lemma resize_fits:
  assumes "invar q" "reads_in_range q" "size_q q \<le> k"
  shows "resize d k q =
           (Inr (),
            notify (Queue_Resized k)
              (q\<lparr>arr := contents q @ replicate (nat (k - size_q q)) d, capacity := k,
                 front := 0, rear := size_q q - 1\<rparr>))"
proof -
  from assms have k: "0 \<le> k" "0 \<le> size_q q" by (auto simp: invar_def)
  with assms have "resize_loop q 0 (replicate (nat k) d) =
      Inr (contents q @ replicate (nat (k - size_q q)) d)"
    by (simp add: resize_loop_invar contents_def nat_diff_distrib)
  with assms k show ?thesis by (simp add: resize_def)
qed

lemma length_resize_loop:
  "resize_loop q i new = Inr r \<Longrightarrow> length r = length new"
proof (induction q i new rule: resize_loop.induct)
  case (1 q i new_arr)
  from "1.prems" show ?case
    by (subst (asm) resize_loop.simps) (auto split: if_splits dest: "1.IH")
qed

lemma invar_resize: assumes "invar q" shows "invar (snd (resize d k q))"
proof (cases "resize_loop q 0 (replicate (nat k) d)")
  case (Inl e)
  with assms show ?thesis by (simp add: resize_def)
next
  case (Inr r)
  from length_resize_loop [OF this] have "length r = nat k" by simp
  with assms Inr show ?thesis
    by (auto simp: resize_def notify_def invar_def)
qed

lemma contents_resize:
  assumes "invar q" "reads_in_range q" "size_q q \<le> k"
  shows "contents (snd (resize d k q)) = contents q"
proof (rule nth_equalityI)
  show "length (contents (snd (resize d k q))) = length (contents q)"
    using assms by (simp add: resize_fits)
next
  fix i assume "i < length (contents (snd (resize d k q)))"
  with assms have i: "int i < size_q q" "i < nat (size_q q)" by (simp_all add: resize_fits)
  with assms show "contents (snd (resize d k q)) ! i = contents q ! i"
    by (simp add: resize_fits nth_contents nth_append)
qed

lemma invar_invoke: "invar q \<Longrightarrow> invar (snd (invoke d c q))"
proof (cases c)
  case (Enqueue v)
  assume "invar q"
  show ?thesis
  proof (cases "0 < capacity q")
    case True
    with \<open>invar q\<close> have "invar (snd (enqueue v q))" by (rule invar_enqueue)
    with Enqueue show ?thesis by (simp add: case_prod_beta)
  next
    case False
    with \<open>invar q\<close> have "size_q q = 0" "capacity q = 0" by (auto simp: invar_def)
    then have "enqueue v q = (Inl Undefined_Behaviour, q)"
      by (simp add: enqueue_def is_full_def)
    with Enqueue \<open>invar q\<close> show ?thesis by simp
  qed
next
  case Dequeue
  assume "invar q"
  then have "invar (snd (dequeue q))" by (rule invar_dequeue)
  with Dequeue show ?thesis by (simp add: case_prod_beta)
next
  case Peek
  assume "invar q"
  with Peek show ?thesis by (simp add: peek_def case_prod_beta)
next
  case Clear
  assume "invar q"
  then have "invar (snd (clear q))" by (rule invar_clear)
  with Clear show ?thesis by (simp add: case_prod_beta)
next
  case (Resize k)
  assume "invar q"
  then have "invar (snd (resize d k q))" by (rule invar_resize)
  with Resize show ?thesis by (simp add: case_prod_beta)
next
  case (Get_Element_At i)
  assume "invar q"
  with Get_Element_At show ?thesis by (simp add: get_element_at_def case_prod_beta)
next
  case Get_All_Elements
  assume "invar q"
  with Get_All_Elements show ?thesis by (simp add: get_all_elements_def case_prod_beta)
qed simp_all

lemma reachable_invar: "reachable d q \<Longrightarrow> invar q"
proof (induction rule: reachable.induct)
  case (constructed n cb q)
  then show ?case by (rule invar_ctor)
next
  case (called q c r q')
  from \<open>invar q\<close> have "invar (snd (invoke d c q))" by (rule invar_invoke)
  with called show ?case by simp
qed

text \<open>
  The sums the source computes: the indices are below the capacity, so \<open>front + 1\<close>,
  \<open>rear + 1\<close> and \<open>size + 1\<close> are at most the capacity, and the sum of \<open>front\<close> and a
  position within the queue is below twice the capacity. That sum is a value of
  \<^verbatim>\<open>int\<close> when the capacity is at most \<open>2^30 = 1073741824\<close>, and also when the queue
  starts at slot \<open>0\<close>.
\<close>

lemma index_sum_in_range:
  assumes "reachable d q" "0 \<le> i" "i < size_q q"
  shows "0 \<le> front q + i \<and> front q + i < 2 * capacity q \<and>
         front q + 1 \<le> capacity q \<and> rear q + 1 \<le> capacity q \<and> size_q q \<le> capacity q \<and>
         (capacity q \<le> 1073741824 \<or> front q = 0 \<longrightarrow> \<not> overflows (front q) i)"
proof -
  from assms(1) have "invar q" by (rule reachable_invar)
  with assms(2,3) show ?thesis by (auto simp: invar_def wrap overflows_def c_int_def)
qed

lemma reachable_run:
  "reachable d q \<Longrightarrow> Inl Undefined_Behaviour \<notin> set (fst (run d cs q))
     \<Longrightarrow> reachable d (snd (run d cs q))"
proof (induction cs arbitrary: q)
  case Nil
  then show ?case by simp
next
  case (Cons c cs)
  obtain r q' where step: "invoke d c q = (r, q')" by (cases "invoke d c q")
  with Cons.prems have ok: "r \<noteq> Inl Undefined_Behaviour"
    and rest: "Inl Undefined_Behaviour \<notin> set (fst (run d cs q'))"
    by (auto simp: case_prod_beta)
  from Cons.prems(1) step ok have "reachable d q'" by (rule reachable.called)
  then have "reachable d (snd (run d cs q'))" using rest by (rule Cons.IH)
  with step show ?case by (simp add: case_prod_beta)
qed

lemma reachable_from_constructor:
  assumes "circular_queue d n cb = Inr q0" "run d cs q0 = (rs, q)"
    "Inl Undefined_Behaviour \<notin> set rs"
  shows "reachable d q"
proof -
  from assms(1) have "reachable d q0" by (rule reachable.constructed)
  with assms(2,3) reachable_run [of d q0 cs] show ?thesis by simp
qed

lemmas eval_defs =
  circular_queue_def enqueue_def dequeue_def peek_def clear_def resize_def
  get_all_elements_def get_element_at_def is_full_def is_empty_def get_size_def
  get_capacity_def notify_def c_mod_def valid_index_def overflows_def c_int_def Let_def

lemmas lib_eval_defs =
  lib_circular_queue_def lib_enqueue_def lib_dequeue_def lib_peek_def lib_clear_def
  lib_is_full_def lib_is_empty_def lib_notify_def c_mod_def valid_index_def Let_def

lemma enqueue_all_contents:
  assumes "invar q" "size_q q + int (length vs) \<le> capacity q"
  shows "\<exists>q'. enqueue_all vs q = (Inr (), q') \<and> invar q' \<and>
              contents q' = contents q @ vs \<and> capacity q' = capacity q \<and>
              size_q q' = size_q q + int (length vs)"
  using assms
proof (induction vs arbitrary: q)
  case Nil
  then show ?case by simp
next
  case (Cons v vs)
  from Cons.prems have lt: "size_q q < capacity q" and cap: "0 < capacity q"
    by (auto simp: invar_def)
  from Cons.prems(1) lt obtain q1 where step: "enqueue v q = (Inr (), q1)"
    by (simp add: enqueue_not_full)
  then have q1: "snd (enqueue v q) = q1" by simp
  from Cons.prems(1) cap have "invar (snd (enqueue v q))" by (rule invar_enqueue)
  then have inv1: "invar q1" by (simp only: q1)
  from Cons.prems(1) lt have "contents (snd (enqueue v q)) = contents q @ [v]"
    by (rule contents_enqueue_not_full)
  then have c1: "contents q1 = contents q @ [v]" by (simp only: q1)
  from Cons.prems(1) lt have "size_q (snd (enqueue v q)) = size_q q + 1"
    "capacity (snd (enqueue v q)) = capacity q"
    by (simp_all add: enqueue_not_full)
  then have s1: "size_q q1 = size_q q + 1" "capacity q1 = capacity q" by (simp_all only: q1)
  with Cons.prems(2) have "size_q q1 + int (length vs) \<le> capacity q1" by simp
  with inv1 obtain q' where "enqueue_all vs q1 = (Inr (), q')" "invar q'"
    "contents q' = contents q1 @ vs" "capacity q' = capacity q1"
    "size_q q' = size_q q1 + int (length vs)"
    using Cons.IH by blast
  with step c1 s1 show ?case by simp
qed

lemma enqueue_all_front:
  assumes "invar q" "size_q q + int (length vs) \<le> capacity q" "size_q q = 0 \<or> front q = 0"
  shows "size_q (snd (enqueue_all vs q)) = 0 \<or> front (snd (enqueue_all vs q)) = 0"
  using assms
proof (induction vs arbitrary: q)
  case Nil
  then show ?case by simp
next
  case (Cons v vs)
  from Cons.prems have lt: "size_q q < capacity q" and cap: "0 < capacity q"
    by (auto simp: invar_def)
  from Cons.prems(1) lt obtain q1 where step: "enqueue v q = (Inr (), q1)"
    by (simp add: enqueue_not_full)
  then have q1: "snd (enqueue v q) = q1" by simp
  from Cons.prems(1) cap have "invar (snd (enqueue v q))" by (rule invar_enqueue)
  then have inv1: "invar q1" by (simp only: q1)
  from Cons.prems(1) lt have "size_q (snd (enqueue v q)) = size_q q + 1"
    "capacity (snd (enqueue v q)) = capacity q"
    "front (snd (enqueue v q)) = (if size_q q = 0 then 0 else front q)"
    by (simp_all add: enqueue_not_full)
  then have s1: "size_q q1 = size_q q + 1" "capacity q1 = capacity q"
    "front q1 = (if size_q q = 0 then 0 else front q)"
    by (simp_all only: q1)
  with Cons.prems(2,3) have "size_q q1 + int (length vs) \<le> capacity q1"
    "size_q q1 = 0 \<or> front q1 = 0"
    by auto
  with inv1 have "size_q (snd (enqueue_all vs q1)) = 0 \<or> front (snd (enqueue_all vs q1)) = 0"
    by (rule Cons.IH)
  with step show ?case by simp
qed

text \<open>
  What \<^verbatim>\<open>resize\<close> does on a queue whose reads stay in the range of \<^verbatim>\<open>int\<close>
  (capacity at most \<open>2^30\<close>).
\<close>

lemma resize_effect:
  assumes "reachable d q" "capacity q \<le> 1073741824"
  shows "(k < size_q q \<longrightarrow> resize d k q = (Inl Invalid_Argument, q)) \<and>
         (size_q q \<le> k \<longrightarrow>
            (\<exists>q'. resize d k q = (Inr (), q') \<and>
                  get_all_elements q' = (Inr (contents q), q') \<and>
                  get_all_elements q = (Inr (contents q), q) \<and>
                  get_capacity q' = k \<and> front q' = 0 \<and>
                  take (nat (size_q q)) (arr q') = contents q))"
proof -
  from assms(1) have inv: "invar q" by (rule reachable_invar)
  from inv assms(2) have rr: "reads_in_range q" by (rule reads_in_range_capacity)
  show ?thesis
  proof (cases "k < size_q q")
    case True
    then show ?thesis by (simp add: resize_too_small)
  next
    case False
    then have le: "size_q q \<le> k" by simp
    from inv have inv': "invar (snd (resize d k q))" by (rule invar_resize)
    from inv rr le have "front (snd (resize d k q)) = 0" by (simp add: resize_fits)
    then have "reads_in_range (snd (resize d k q))" by (simp add: reads_in_range_front)
    with inv' have "get_all_elements (snd (resize d k q)) =
        (Inr (contents (snd (resize d k q))), snd (resize d k q))"
      by (rule get_all_elements_contents)
    with inv rr le show ?thesis
      by (simp add: contents_resize get_all_elements_contents)
         (simp add: resize_fits get_capacity_def)
  qed
qed

lemma logged_enqueue:
  "logger q \<Longrightarrow> enqueue v q = (r, q') \<Longrightarrow>
     logged q' = logged q @ (if isl r then [] else [Enqueued v])"
  by (auto simp: enqueue_def notify_def Let_def split: if_splits)

lemma logged_dequeue:
  "logger q \<Longrightarrow> dequeue q = (r, q') \<Longrightarrow>
     logged q' = logged q @ (case r of Inl e \<Rightarrow> [] | Inr v \<Rightarrow> [Dequeued v])"
  by (auto simp: dequeue_def notify_def Let_def split: if_splits)

lemma logged_clear:
  "logger q \<Longrightarrow> clear q = (r, q') \<Longrightarrow> \<not> isl r \<and> logged q' = logged q @ [Queue_Cleared]"
  by (auto simp: clear_def notify_def)

lemma logged_resize:
  "logger q \<Longrightarrow> resize d k q = (r, q') \<Longrightarrow>
     logged q' = logged q @ (if isl r then [] else [Queue_Resized k])"
  by (auto simp: resize_def notify_def split: if_splits sum.splits)

lemma read_only:
  "snd (peek q) = q" "snd (get_element_at i q) = q" "snd (get_all_elements q) = q"
  by (simp_all add: peek_def get_element_at_def get_all_elements_def)

section \<open>The library implementation simulates the header implementation\<close>

lemma wrap_neg: "- c \<le> (x::int) \<Longrightarrow> x < 0 \<Longrightarrow> x mod c = x + c"
proof -
  assume "- c \<le> x" "x < 0"
  then have "(x + c) mod c = x + c" by (intro mod_pos_pos_trivial) auto
  then show ?thesis by (simp only: mod_add_self2)
qed

lemma lib_notify_fields [simp]:
  "l_arr (lib_notify e l) = l_arr l" "l_front (lib_notify e l) = l_front l"
  "l_rear (lib_notify e l) = l_rear l" "l_size (lib_notify e l) = l_size l"
  "l_logger (lib_notify e l) = l_logger l"
  by (simp_all add: lib_notify_def)

lemma same_queue_notify [simp]:
  "same_queue (notify e q) l = same_queue q l"
  "same_queue q (lib_notify e' l) = same_queue q l"
  by (simp_all add: same_queue_def invar_def)

lemma same_queue_count:
  assumes "same_queue q l"
  shows "lib_count l = nat (size_q q)"
proof (cases "size_q q = 0")
  case True
  with assms show ?thesis by (simp add: same_queue_def lib_count_def)
next
  case False
  with assms have "0 < size_q q" "size_q q \<le> capacity q" "0 \<le> front q" "front q < capacity q"
    "rear q = (front q + size_q q - 1) mod capacity q"
    by (auto simp: same_queue_def invar_def)
  moreover from this have "(rear q - front q) mod capacity q = size_q q - 1"
    by (auto simp: wrap wrap_neg)
  ultimately show ?thesis using assms
    by (auto simp: same_queue_def lib_count_def)
qed

lemma same_queue_contents:
  assumes "same_queue q l"
  shows "lib_contents l = contents q"
  using assms same_queue_count [OF assms]
  by (simp add: lib_contents_def contents_def same_queue_def)

lemma same_queue_is_empty: "same_queue q l \<Longrightarrow> lib_is_empty l = is_empty q"
  by (auto simp: same_queue_def lib_is_empty_def is_empty_def invar_def)

lemma same_queue_is_full:
  assumes "same_queue q l"
  shows "lib_is_full l = Inr (is_full q)"
proof (cases "size_q q = 0")
  case True
  with assms show ?thesis
    by (auto simp: same_queue_def lib_is_full_def is_full_def c_mod_def)
next
  case False
  with assms have "0 < size_q q" "size_q q \<le> capacity q" "0 \<le> front q" "front q < capacity q"
    "rear q = (front q + size_q q - 1) mod capacity q"
    by (auto simp: same_queue_def invar_def)
  moreover from this have "0 \<le> rear q" by simp
  moreover from calculation have "((rear q + 1) mod capacity q = front q) = (size_q q = capacity q)"
    by (auto simp: wrap split: if_splits)
  ultimately show ?thesis using assms
    by (auto simp: same_queue_def lib_is_full_def is_full_def c_mod_nonneg)
qed

lemma same_queue_constructed:
  assumes "circular_queue d n cb = Inr q" "lib_circular_queue fill n cb' = Inr l"
  shows "same_queue q l"
  using assms
  by (auto simp: circular_queue_def lib_circular_queue_def same_queue_def invar_def
      split: if_splits)

lemma enqueue_fields:
  assumes "invar q" "0 < capacity q"
  shows "fst (enqueue v q) = Inr ()"
    and "capacity (snd (enqueue v q)) = capacity q"
    and "arr (snd (enqueue v q)) = (arr q)[nat (rear (snd (enqueue v q))) := v]"
    and "0 < size_q (snd (enqueue v q))"
proof -
  have "fst (enqueue v q) = Inr () \<and> capacity (snd (enqueue v q)) = capacity q \<and>
        arr (snd (enqueue v q)) = (arr q)[nat (rear (snd (enqueue v q))) := v] \<and>
        0 < size_q (snd (enqueue v q))"
  proof (cases "size_q q = capacity q")
    case True
    from assms(1) True assms(2) have "enqueue v q = (Inr (),
           notify (Enqueued v)
             (q\<lparr>front := (front q + 1) mod capacity q, rear := front q,
                arr := (arr q)[nat (front q) := v], size_q := capacity q\<rparr>))"
      by (rule enqueue_full)
    with assms(2) show ?thesis by simp
  next
    case False
    with assms have lt: "size_q q < capacity q" and nn: "0 \<le> size_q q"
      by (simp_all add: invar_def)
    from assms(1) lt have "enqueue v q = (Inr (),
           notify (Enqueued v)
             (q\<lparr>front := (if size_q q = 0 then 0 else front q),
                rear := (if size_q q = 0 then 0 else (front q + size_q q) mod capacity q),
                arr := (arr q)[nat (if size_q q = 0 then 0 else (front q + size_q q) mod capacity q) := v],
                size_q := size_q q + 1\<rparr>))"
      by (rule enqueue_not_full)
    with nn show ?thesis by simp
  qed
  then show "fst (enqueue v q) = Inr ()"
    and "capacity (snd (enqueue v q)) = capacity q"
    and "arr (snd (enqueue v q)) = (arr q)[nat (rear (snd (enqueue v q))) := v]"
    and "0 < size_q (snd (enqueue v q))"
    by simp_all
qed

lemma lib_dequeue_nonempty:
  assumes "l_front l \<noteq> - 1" "valid_index (l_arr l) (l_front l)" "l_size l \<noteq> 0"
  shows "lib_dequeue d l =
           (Inr (l_arr l ! nat (l_front l)),
            lib_notify (Dequeued (l_arr l ! nat (l_front l)))
              (if l_front l = l_rear l then l\<lparr>l_front := - 1, l_rear := - 1\<rparr>
               else l\<lparr>l_front := c_mod (l_front l + 1) (l_size l)\<rparr>))"
  using assms by (simp add: lib_dequeue_def lib_is_empty_def Let_def)

lemma lib_enqueue_not_full:
  assumes "lib_is_full l = Inr False"
    "valid_index (l_arr l) (c_mod (l_rear l + 1) (l_size l))"
  shows "lib_enqueue d v l =
           (Inr (),
            lib_notify (Enqueued v)
              (l\<lparr>l_front := (if l_front l = - 1 then 0 else l_front l),
                 l_rear := c_mod (l_rear l + 1) (l_size l),
                 l_arr := (l_arr l)[nat (c_mod (l_rear l + 1) (l_size l)) := v]\<rparr>))"
  using assms by (simp add: lib_enqueue_def Let_def)

lemma c_mod_zero [simp]: "c_mod 0 b = 0"
  by (simp add: c_mod_def)

lemma lib_enqueue_full:
  assumes "lib_is_full l = Inr True" "l_front l \<noteq> - 1" "valid_index (l_arr l) (l_front l)"
    "l_size l \<noteq> 0"
    "valid_index (l_arr l) (if l_front l = l_rear l then 0 else c_mod (l_rear l + 1) (l_size l))"
    "c_mod (l_front l + 1) (l_size l) \<noteq> - 1"
  shows "fst (lib_enqueue d v l) = Inr ()"
    and "l_front (snd (lib_enqueue d v l)) =
           (if l_front l = l_rear l then 0 else c_mod (l_front l + 1) (l_size l))"
    and "l_rear (snd (lib_enqueue d v l)) =
           (if l_front l = l_rear l then 0 else c_mod (l_rear l + 1) (l_size l))"
    and "l_size (snd (lib_enqueue d v l)) = l_size l"
    and "l_arr (snd (lib_enqueue d v l)) =
           (l_arr l)[nat (if l_front l = l_rear l then 0 else c_mod (l_rear l + 1) (l_size l)) := v]"
proof -
  note dq = lib_dequeue_nonempty [OF assms(2,3,4), of d]
  have "fst (lib_enqueue d v l) = Inr () \<and>
     l_front (snd (lib_enqueue d v l)) =
           (if l_front l = l_rear l then 0 else c_mod (l_front l + 1) (l_size l)) \<and>
     l_rear (snd (lib_enqueue d v l)) =
           (if l_front l = l_rear l then 0 else c_mod (l_rear l + 1) (l_size l)) \<and>
     l_size (snd (lib_enqueue d v l)) = l_size l \<and>
     l_arr (snd (lib_enqueue d v l)) =
           (l_arr l)[nat (if l_front l = l_rear l then 0 else c_mod (l_rear l + 1) (l_size l)) := v]"
  proof (cases "l_front l = l_rear l")
    case True
    with assms(1,5) dq show ?thesis
      by (simp add: lib_enqueue_def Let_def)
  next
    case False
    with assms(1,5,6) dq show ?thesis
      by (simp add: lib_enqueue_def Let_def)
  qed
  then show "fst (lib_enqueue d v l) = Inr ()"
    and "l_front (snd (lib_enqueue d v l)) =
           (if l_front l = l_rear l then 0 else c_mod (l_front l + 1) (l_size l))"
    and "l_rear (snd (lib_enqueue d v l)) =
           (if l_front l = l_rear l then 0 else c_mod (l_rear l + 1) (l_size l))"
    and "l_size (snd (lib_enqueue d v l)) = l_size l"
    and "l_arr (snd (lib_enqueue d v l)) =
           (l_arr l)[nat (if l_front l = l_rear l then 0 else c_mod (l_rear l + 1) (l_size l)) := v]"
    by simp_all
qed

lemma lib_enqueue_fields:
  assumes "same_queue q l"
  shows "fst (lib_enqueue d v l) = Inr ()"
    and "l_front (snd (lib_enqueue d v l)) = front (snd (enqueue v q))"
    and "l_rear (snd (lib_enqueue d v l)) = rear (snd (enqueue v q))"
    and "l_size (snd (lib_enqueue d v l)) = l_size l"
    and "l_arr (snd (lib_enqueue d v l)) = (l_arr l)[nat (rear (snd (enqueue v q))) := v]"
proof -
  from assms have inv: "invar q" and cap: "0 < capacity q" and sz: "l_size l = capacity q"
    and len: "length (l_arr l) = nat (capacity q)"
    and fr: "l_front l = front q" "l_rear l = rear q"
    and emp: "size_q q = 0 \<longrightarrow> front q = - 1 \<and> rear q = - 1"
    by (auto simp: same_queue_def)
  have full: "lib_is_full l = Inr (is_full q)" using assms by (rule same_queue_is_full)
  have "fst (lib_enqueue d v l) = Inr () \<and>
      l_front (snd (lib_enqueue d v l)) = front (snd (enqueue v q)) \<and>
      l_rear (snd (lib_enqueue d v l)) = rear (snd (enqueue v q)) \<and>
      l_size (snd (lib_enqueue d v l)) = l_size l \<and>
      l_arr (snd (lib_enqueue d v l)) = (l_arr l)[nat (rear (snd (enqueue v q))) := v]"
  proof (cases "size_q q = capacity q")
    case True
    with inv cap have f: "0 \<le> front q" "front q < capacity q"
      "rear q = (front q + capacity q - 1) mod capacity q"
      by (auto simp: invar_def)
    with cap have r: "0 \<le> rear q" "(rear q + 1) mod capacity q = front q"
      "(front q = rear q) = (capacity q = 1)"
      by (auto simp: wrap split: if_splits)
    from f cap have f1: "(front q + 1) mod capacity q \<noteq> - 1"
      "front q = rear q \<longrightarrow> (front q + 1) mod capacity q = 0"
      using r(3) by (auto simp: wrap)
    have hq: "snd (enqueue v q) = notify (Enqueued v)
             (q\<lparr>front := (front q + 1) mod capacity q, rear := front q,
                arr := (arr q)[nat (front q) := v], size_q := capacity q\<rparr>)"
      using enqueue_full [OF inv True cap, of v] by simp
    have a1: "lib_is_full l = Inr True" using full True by (simp add: is_full_def)
    have a2: "l_front l \<noteq> - 1" using fr f by simp
    have a3: "valid_index (l_arr l) (l_front l)" using fr f len by (simp add: valid_index_def)
    have a4: "l_size l \<noteq> 0" using sz cap by simp
    have cm: "c_mod (l_rear l + 1) (l_size l) = front q"
      "c_mod (l_front l + 1) (l_size l) = (front q + 1) mod capacity q"
      using fr sz f r cap by (simp_all add: c_mod_nonneg)
    have a5: "valid_index (l_arr l)
        (if l_front l = l_rear l then 0 else c_mod (l_rear l + 1) (l_size l))"
      using cm f cap len by (simp add: valid_index_def)
    have a6: "c_mod (l_front l + 1) (l_size l) \<noteq> - 1" using cm f1 by simp
    note lf = lib_enqueue_full [OF a1 a2 a3 a4 a5 a6, of d v]
    have z: "l_front l = l_rear l \<longrightarrow> front q = 0"
      using fr r(3) f by auto
    show ?thesis
      using lf cm f1 z fr by (auto simp: hq)
  next
    case False
    with inv have lt: "size_q q < capacity q" and nn: "0 \<le> size_q q"
      by (simp_all add: invar_def)
    have hq: "snd (enqueue v q) = notify (Enqueued v)
             (q\<lparr>front := (if size_q q = 0 then 0 else front q),
                rear := (if size_q q = 0 then 0 else (front q + size_q q) mod capacity q),
                arr := (arr q)[nat (if size_q q = 0 then 0 else (front q + size_q q) mod capacity q) := v],
                size_q := size_q q + 1\<rparr>)"
      using enqueue_not_full [OF inv lt, of v] by simp
    have a1: "lib_is_full l = Inr False" using full False by (simp add: is_full_def)
    have cm: "c_mod (l_rear l + 1) (l_size l) =
        (if size_q q = 0 then 0 else (front q + size_q q) mod capacity q)"
    proof (cases "size_q q = 0")
      case True
      with emp fr show ?thesis by simp
    next
      case False
      with inv nn have "0 \<le> front q" "front q < capacity q"
        "rear q = (front q + size_q q - 1) mod capacity q" "0 < size_q q"
        by (auto simp: invar_def)
      with lt cap have "0 \<le> rear q"
        "(rear q + 1) mod capacity q = (front q + size_q q) mod capacity q"
        by (auto simp: wrap)
      with False fr sz cap show ?thesis by (simp add: c_mod_nonneg)
    qed
    have a2: "valid_index (l_arr l) (c_mod (l_rear l + 1) (l_size l))"
      using cm cap len by (simp add: valid_index_def)
    have fz: "(l_front l = - 1) = (size_q q = 0)"
      using fr emp inv nn by (auto simp: invar_def)
    show ?thesis
      using lib_enqueue_not_full [OF a1 a2, of d v] cm fz fr by (auto simp: hq)
  qed
  then show "fst (lib_enqueue d v l) = Inr ()"
    and "l_front (snd (lib_enqueue d v l)) = front (snd (enqueue v q))"
    and "l_rear (snd (lib_enqueue d v l)) = rear (snd (enqueue v q))"
    and "l_size (snd (lib_enqueue d v l)) = l_size l"
    and "l_arr (snd (lib_enqueue d v l)) = (l_arr l)[nat (rear (snd (enqueue v q))) := v]"
    by simp_all
qed

text \<open>A slot that is occupied after an \<^verbatim>\<open>enqueue\<close> is the slot written or was occupied before.\<close>

lemma occupied_after_enqueue:
  assumes "invar q" "0 < capacity q" "i < nat (size_q (snd (enqueue v q)))"
    "(front (snd (enqueue v q)) + int i) mod capacity q \<noteq> rear (snd (enqueue v q))"
  shows "\<exists>j < nat (size_q q).
           (front (snd (enqueue v q)) + int i) mod capacity q =
           (front q + int j) mod capacity q"
proof (cases "size_q q = capacity q")
  case True
  with assms have f: "0 \<le> front q" "front q < capacity q" by (auto simp: invar_def)
  have hq: "snd (enqueue v q) = notify (Enqueued v)
             (q\<lparr>front := (front q + 1) mod capacity q, rear := front q,
                arr := (arr q)[nat (front q) := v], size_q := capacity q\<rparr>)"
    using enqueue_full [OF assms(1) True assms(2), of v] by simp
  from assms(3) have i: "int i < capacity q" by (simp add: hq)
  have shift: "((front q + 1) mod capacity q + int i) mod capacity q =
      (front q + int (Suc i)) mod capacity q"
    by (simp add: mod_add_left_eq add.assoc)
  have "int i \<noteq> capacity q - 1"
  proof
    assume "int i = capacity q - 1"
    then have "(front q + int (Suc i)) mod capacity q = front q" using f by simp
    with assms(4) shift show False by (simp add: hq)
  qed
  with i have "Suc i < nat (size_q q)" using True by simp
  with shift show ?thesis by (auto simp: hq)
next
  case False
  with assms have lt: "size_q q < capacity q" and nn: "0 \<le> size_q q" by (simp_all add: invar_def)
  have hq: "snd (enqueue v q) = notify (Enqueued v)
             (q\<lparr>front := (if size_q q = 0 then 0 else front q),
                rear := (if size_q q = 0 then 0 else (front q + size_q q) mod capacity q),
                arr := (arr q)[nat (if size_q q = 0 then 0 else (front q + size_q q) mod capacity q) := v],
                size_q := size_q q + 1\<rparr>)"
    using enqueue_not_full [OF assms(1) lt, of v] by simp
  show ?thesis
  proof (cases "size_q q = 0")
    case True
    with assms(3,4) assms(2) show ?thesis by (simp add: hq)
  next
    case False
    from assms(3) nn have "int i \<le> size_q q" by (simp add: hq)
    moreover from assms(4) False have "int i \<noteq> size_q q" by (auto simp: hq)
    ultimately have "i < nat (size_q q)" by simp
    with False show ?thesis by (auto simp: hq)
  qed
qed

lemma same_queue_enqueue:
  assumes "same_queue q l"
  shows "same_queue (snd (enqueue v q)) (snd (lib_enqueue d v l))"
proof -
  let ?q = "snd (enqueue v q)" and ?l = "snd (lib_enqueue d v l)"
  from assms have inv: "invar q" and cap: "0 < capacity q" and sz: "l_size l = capacity q"
    and len: "length (l_arr l) = nat (capacity q)" "length (arr q) = nat (capacity q)"
    by (simp_all add: same_queue_def invar_def)
  from assms have "\<forall>j < nat (size_q q).
        l_arr l ! nat ((front q + int j) mod capacity q) =
        arr q ! nat ((front q + int j) mod capacity q)"
    by (simp add: same_queue_def)
  then have agree: "l_arr l ! nat ((front q + int j) mod capacity q) =
        arr q ! nat ((front q + int j) mod capacity q)" if "j < nat (size_q q)" for j
    using that by blast
  note hf = enqueue_fields [OF inv cap, of v]
  note lf = lib_enqueue_fields [OF assms, of d v]
  from inv cap have inv': "invar ?q" by (rule invar_enqueue)
  with hf have rr: "0 \<le> rear ?q" "rear ?q < capacity q" by (auto simp: invar_def)
  have ag: "l_arr ?l ! nat ((front ?q + int i) mod capacity ?q) =
        arr ?q ! nat ((front ?q + int i) mod capacity ?q)" if i: "i < nat (size_q ?q)" for i
  proof (cases "(front ?q + int i) mod capacity q = rear ?q")
    case True
    have "(l_arr l)[nat (rear ?q) := v] ! nat (rear ?q) = (arr q)[nat (rear ?q) := v] ! nat (rear ?q)"
      using rr len by simp
    with True hf(2,3) lf(5) show ?thesis by simp
  next
    case False
    from occupied_after_enqueue [OF inv cap i False]
    obtain j where j: "j < nat (size_q q)"
      "(front ?q + int i) mod capacity q = (front q + int j) mod capacity q"
      by blast
    from False j(2) have ne: "nat ((front q + int j) mod capacity q) \<noteq> nat (rear ?q)"
      using cap rr by (auto simp: nat_eq_iff)
    have "(l_arr l)[nat (rear ?q) := v] ! nat ((front q + int j) mod capacity q) =
          (arr q)[nat (rear ?q) := v] ! nat ((front q + int j) mod capacity q)"
      using ne agree [OF j(1)] by simp
    with j(2) hf(2,3) lf(5) show ?thesis by simp
  qed
  have e: "size_q ?q \<noteq> 0" using hf(4) by simp
  have ll: "length (l_arr ?l) = nat (capacity q)" using lf(5) len by simp
  show ?thesis
    unfolding same_queue_def
    using inv' hf(2) lf(2,3,4) cap sz ll e ag by simp
qed



lemma lib_dequeue_fields:
  assumes "same_queue q l" "0 < size_q q"
  shows "fst (lib_dequeue d l) = fst (dequeue q)"
    and "same_queue (snd (dequeue q)) (snd (lib_dequeue d l))"
proof -
  from assms have inv: "invar q" and cap: "0 < capacity q" and sz: "l_size l = capacity q"
    and len: "length (l_arr l) = nat (capacity q)" "length (arr q) = nat (capacity q)"
    and fr: "l_front l = front q" "l_rear l = rear q"
    and f: "0 \<le> front q" "front q < capacity q"
      "rear q = (front q + size_q q - 1) mod capacity q" "size_q q \<le> capacity q"
    by (simp_all add: same_queue_def invar_def)
  from assms have "\<forall>j < nat (size_q q).
        l_arr l ! nat ((front q + int j) mod capacity q) =
        arr q ! nat ((front q + int j) mod capacity q)"
    by (simp add: same_queue_def)
  then have agree: "l_arr l ! nat ((front q + int j) mod capacity q) =
        arr q ! nat ((front q + int j) mod capacity q)" if "j < nat (size_q q)" for j
    using that by blast
  from agree [of 0] assms(2) f have hd: "l_arr l ! nat (front q) = arr q ! nat (front q)"
    by simp
  have one: "(front q = rear q) = (size_q q = 1)"
    using f assms(2) by (auto simp: wrap split: if_splits)
  have a1: "l_front l \<noteq> - 1" using fr f by simp
  have a2: "valid_index (l_arr l) (l_front l)" using fr f len by (simp add: valid_index_def)
  have a3: "l_size l \<noteq> 0" using sz cap by simp
  note ld = lib_dequeue_nonempty [OF a1 a2 a3, of d]
  note hd' = dequeue_nonempty [OF inv assms(2)]
  show "fst (lib_dequeue d l) = fst (dequeue q)"
    using ld hd' hd fr by simp
  have inv': "invar (snd (dequeue q))" using inv by (rule invar_dequeue)
  show "same_queue (snd (dequeue q)) (snd (lib_dequeue d l))"
  proof (cases "size_q q = 1")
    case True
    with ld hd' fr one inv' cap sz len show ?thesis
      by (simp add: same_queue_def)
  next
    case False
    have cm: "c_mod (front q + 1) (capacity q) = (front q + 1) mod capacity q"
      using f cap by (simp add: c_mod_nonneg)
    have ag: "l_arr l ! nat (((front q + 1) mod capacity q + int i) mod capacity q) =
          arr q ! nat (((front q + 1) mod capacity q + int i) mod capacity q)"
      if "i < nat (size_q q - 1)" for i
    proof -
      have "((front q + 1) mod capacity q + int i) mod capacity q =
          (front q + int (Suc i)) mod capacity q"
        by (simp add: mod_add_left_eq add.assoc)
      moreover from that have "Suc i < nat (size_q q)" by simp
      ultimately show ?thesis using agree [of "Suc i"] by simp
    qed
    from False ld hd' fr one inv' cap sz len cm ag assms(2) show ?thesis
      by (simp add: same_queue_def)
  qed
qed

lemma same_queue_clear:
  assumes "same_queue q l"
  shows "same_queue (snd (clear q)) (snd (lib_clear l))"
  using assms by (simp add: same_queue_def clear_def lib_clear_def invar_def)

lemma same_queue_empty_ops:
  assumes "same_queue q l" "size_q q = 0"
  shows "lib_dequeue d l = (Inr d, lib_notify Cannot_Dequeue l)"
    and "lib_peek d l = (Inr d, lib_notify No_Front_Element l)"
    and "dequeue q = (Inl Underflow_Error, q)"
    and "peek q = (Inl Underflow_Error, q)"
  using assms
  by (simp_all add: same_queue_def lib_dequeue_def lib_peek_def lib_is_empty_def
      dequeue_def peek_def is_empty_def)

lemma same_queue_peek:
  assumes "same_queue q l" "0 < size_q q"
  shows "lib_peek d l = (Inr (arr q ! nat (front q)),
                         lib_notify (Peeked_At (arr q ! nat (front q))) l)"
    and "peek q = (Inr (arr q ! nat (front q)), q)"
proof -
  from assms have f: "0 \<le> front q" "front q < capacity q" "l_front l = front q"
    "length (l_arr l) = nat (capacity q)" "length (arr q) = nat (capacity q)"
    by (simp_all add: same_queue_def invar_def)
  from assms have "\<forall>j < nat (size_q q).
        l_arr l ! nat ((front q + int j) mod capacity q) =
        arr q ! nat ((front q + int j) mod capacity q)"
    by (simp add: same_queue_def)
  moreover from assms(2) have "0 < nat (size_q q)" by simp
  ultimately have "l_arr l ! nat ((front q + int 0) mod capacity q) =
        arr q ! nat ((front q + int 0) mod capacity q)"
    by blast
  with f have hd: "l_arr l ! nat (front q) = arr q ! nat (front q)" by simp
  show "lib_peek d l = (Inr (arr q ! nat (front q)),
                         lib_notify (Peeked_At (arr q ! nat (front q))) l)"
    using f hd by (simp add: lib_peek_def lib_is_empty_def valid_index_def)
  show "peek q = (Inr (arr q ! nat (front q)), q)"
    using f assms(2) by (simp add: peek_def is_empty_def valid_index_def)
qed

lemma sim_step:
  assumes "same_queue q l"
  shows "fst (lib_invoke d c l) = default_on_underflow d (fst (invoke d (header_call c) q)) \<and>
         same_queue (snd (invoke d (header_call c) q)) (snd (lib_invoke d c l)) \<and>
         fst (invoke d (header_call c) q) \<noteq> Inl Undefined_Behaviour"
proof (cases c)
  case (Lib_Enqueue v)
  from assms have inv: "invar q" and cap: "0 < capacity q" by (simp_all add: same_queue_def)
  from enqueue_fields(1) [OF inv cap, of v] lib_enqueue_fields(1) [OF assms, of d v]
    same_queue_enqueue [OF assms, of v d] Lib_Enqueue
  show ?thesis by (simp add: case_prod_beta)
next
  case Lib_Dequeue
  show ?thesis
  proof (cases "size_q q = 0")
    case True
    from same_queue_empty_ops(1,3) [OF assms True] assms Lib_Dequeue
    show ?thesis by simp
  next
    case False
    with assms have pos: "0 < size_q q" by (simp add: same_queue_def invar_def)
    from assms have inv: "invar q" by (simp add: same_queue_def)
    from lib_dequeue_fields [OF assms pos, of d] dequeue_nonempty [OF inv pos] Lib_Dequeue
    show ?thesis by (simp add: case_prod_beta)
  qed
next
  case Lib_Peek
  show ?thesis
  proof (cases "size_q q = 0")
    case True
    from same_queue_empty_ops(2,4) [OF assms True] assms Lib_Peek
    show ?thesis by simp
  next
    case False
    with assms have pos: "0 < size_q q" by (simp add: same_queue_def invar_def)
    from same_queue_peek [OF assms pos] assms Lib_Peek
    show ?thesis by simp
  qed
next
  case Lib_Clear
  from same_queue_clear [OF assms] show ?thesis
    using Lib_Clear by (simp add: clear_def lib_clear_def)
next
  case Lib_Is_Full
  from same_queue_is_full [OF assms] assms show ?thesis
    using Lib_Is_Full by simp
next
  case Lib_Is_Empty
  from same_queue_is_empty [OF assms] assms show ?thesis
    using Lib_Is_Empty by simp
qed

lemma sim_run:
  assumes "same_queue q l"
  shows "fst (lib_run d cs l) = map (default_on_underflow d) (fst (run d (map header_call cs) q)) \<and>
         same_queue (snd (run d (map header_call cs) q)) (snd (lib_run d cs l)) \<and>
         Inl Undefined_Behaviour \<notin> set (fst (run d (map header_call cs) q))"
  using assms
proof (induction cs arbitrary: q l)
  case Nil
  then show ?case by simp
next
  case (Cons c cs)
  note step = sim_step [OF Cons.prems, of d c]
  from step have "same_queue (snd (invoke d (header_call c) q)) (snd (lib_invoke d c l))"
    by simp
  note rest = Cons.IH [OF this]
  from step rest show ?case by (auto simp: case_prod_beta)
qed

lemma l_size_lib_dequeue: "l_size (snd (lib_dequeue d l)) = l_size l"
  by (simp add: lib_dequeue_def Let_def)

lemma l_size_lib_enqueue: "l_size (snd (lib_enqueue d v l)) = l_size l"
proof (cases "lib_is_full l")
  case (Inl e)
  then show ?thesis by (simp add: lib_enqueue_def)
next
  case (Inr full)
  obtain r l1 where dq: "(if full then lib_dequeue d l else (Inr d, l)) = (r, l1)"
    by (cases "if full then lib_dequeue d l else (Inr d, l)")
  then have "l_size l1 = l_size l"
    using l_size_lib_dequeue [of d l] by (auto split: if_splits)
  with Inr dq show ?thesis
    by (cases r) (simp_all add: lib_enqueue_def Let_def)
qed

lemma l_size_lib_invoke: "l_size (snd (lib_invoke d c l)) = l_size l"
  by (cases c)
     (simp_all add: case_prod_beta l_size_lib_enqueue l_size_lib_dequeue lib_peek_def lib_clear_def)

lemma l_size_lib_run: "l_size (snd (lib_run d cs l)) = l_size l"
proof (induction cs arbitrary: l)
  case Nil
  show ?case by simp
next
  case (Cons c cs)
  obtain r l' where step: "lib_invoke d c l = (r, l')" by (cases "lib_invoke d c l")
  from l_size_lib_invoke [of d c l] step have "l_size l' = l_size l" by simp
  with Cons.IH [of l'] step show ?case by (simp add: case_prod_beta)
qed

lemma lib_reachable_same_queue:
  assumes "lib_reachable d l" "0 < l_size l"
  shows "\<exists>q. reachable d q \<and> same_queue q l"
  using assms
proof (induction rule: lib_reachable.induct)
  case (lib_constructed fill n cb l)
  then have n: "0 < n" by (auto simp: lib_circular_queue_def split: if_splits)
  then obtain q where q: "circular_queue d n cb = Inr q" by (simp add: circular_queue_def)
  then have "reachable d q" by (rule reachable.constructed)
  moreover from q lib_constructed(1) have "same_queue q l" by (rule same_queue_constructed)
  ultimately show ?case by blast
next
  case (lib_called l c r l')
  from lib_called(2) have "l_size l' = l_size l" using l_size_lib_invoke [of d c l] by simp
  with lib_called.prems have "0 < l_size l" by simp
  with lib_called.IH obtain q where q: "reachable d q" "same_queue q l" by blast
  note step = sim_step [OF q(2), of d c]
  obtain r' q' where inv: "invoke d (header_call c) q = (r', q')"
    by (cases "invoke d (header_call c) q")
  with step have "r' \<noteq> Inl Undefined_Behaviour" by simp
  with q(1) inv have "reachable d q'" by (rule reachable.called)
  moreover from step inv lib_called(2) have "same_queue q' l'" by simp
  ultimately show ?case by blast
qed

text \<open>
  What \<open>lib_contents\<close> lists is what the library queue hands out: a \<^verbatim>\<open>dequeue\<close>
  returns its first element and leaves the rest.
\<close>

lemma lib_dequeue_contents:
  assumes "lib_reachable d l" "0 < l_size l" "lib_contents l \<noteq> []"
  shows "fst (lib_dequeue d l) = Inr (hd (lib_contents l)) \<and>
         lib_contents (snd (lib_dequeue d l)) = tl (lib_contents l)"
proof -
  from lib_reachable_same_queue [OF assms(1,2)] obtain q where sq: "same_queue q l" by blast
  then have inv: "invar q" by (simp add: same_queue_def)
  note c = same_queue_contents [OF sq]
  with assms(3) have "contents q \<noteq> []" by simp
  then have pos: "0 < size_q q" by (auto simp: contents_def)
  note df = lib_dequeue_fields [OF sq pos, of d]
  from df(1) dequeue_nonempty [OF inv pos] hd_contents [OF inv pos] c
  have "fst (lib_dequeue d l) = Inr (hd (lib_contents l))" by simp
  moreover from same_queue_contents [OF df(2)] contents_dequeue [OF inv pos] c
  have "lib_contents (snd (lib_dequeue d l)) = tl (lib_contents l)" by simp
  ultimately show ?thesis by simp
qed



text \<open>
  What \<^verbatim>\<open>enqueue\<close> does on a queue of capacity at least 1. In the header
  implementation (with a capacity of at most \<open>2^30\<close>, for the snapshots): on a full
  queue the head index advances by one modulo the capacity, the size stays at the
  capacity, and the snapshot afterwards is the snapshot before without its first
  element, followed by the new value; on a queue that is not full the value is
  appended and the size grows by 1. In the library implementation the occupied slots
  change in the same way.
\<close>

lemma enqueue_effect:
  "(reachable d q \<and> 0 < capacity q \<and> capacity q \<le> 1073741824 \<longrightarrow>
      (\<exists>xs q'. get_all_elements q = (Inr xs, q) \<and> enqueue v q = (Inr (), q') \<and>
         get_capacity q' = get_capacity q \<and>
         (is_full q \<longrightarrow>
            get_size q' = get_capacity q \<and>
            front q' = (front q + 1) mod capacity q \<and>
            get_all_elements q' = (Inr (tl xs @ [v]), q')) \<and>
         (\<not> is_full q \<longrightarrow>
            get_size q' = get_size q + 1 \<and>
            get_all_elements q' = (Inr (xs @ [v]), q')))) \<and>
   (lib_reachable d l \<and> 0 < l_size l \<longrightarrow>
      (\<exists>l'. lib_enqueue d v l = (Inr (), l') \<and> l_size l' = l_size l \<and>
         (lib_is_full l = Inr True \<longrightarrow>
            length (lib_contents l') = nat (l_size l) \<and>
            lib_contents l' = tl (lib_contents l) @ [v]) \<and>
         (lib_is_full l = Inr False \<longrightarrow> lib_contents l' = lib_contents l @ [v])))"
proof (intro conjI impI)
  assume "reachable d q \<and> 0 < capacity q \<and> capacity q \<le> 1073741824"
  then have inv: "invar q" and cap: "0 < capacity q" and small: "capacity q \<le> 1073741824"
    by (auto intro: reachable_invar)
  obtain r q' where e0: "enqueue v q = (r, q')" by (cases "enqueue v q")
  then have q': "snd (enqueue v q) = q'" and r: "fst (enqueue v q) = r" by simp_all
  note hf = enqueue_fields [OF inv cap, of v, unfolded q' r]
  from inv cap have "invar (snd (enqueue v q))" by (rule invar_enqueue)
  then have inv': "invar q'" by (simp only: q')
  have e: "enqueue v q = (Inr (), q')" using e0 hf(1) by simp
  from small hf(2) have small': "capacity q' \<le> 1073741824" by simp
  have g: "get_all_elements q = (Inr (contents q), q)"
    "get_all_elements q' = (Inr (contents q'), q')"
    using inv inv' small small'
    by (simp_all add: get_all_elements_contents reads_in_range_capacity)
  have full: "get_size q' = get_capacity q \<and> front q' = (front q + 1) mod capacity q \<and>
      contents q' = tl (contents q) @ [v]" if "is_full q"
  proof -
    from that have f: "size_q q = capacity q" by (simp add: is_full_def)
    have c: "contents q' = tl (contents q) @ [v]"
      using contents_enqueue_full [OF inv f cap, of v] by (simp only: q')
    have "q' = notify (Enqueued v)
             (q\<lparr>front := (front q + 1) mod capacity q, rear := front q,
                arr := (arr q)[nat (front q) := v], size_q := capacity q\<rparr>)"
      using enqueue_full [OF inv f cap, of v] e by simp
    then have "front q' = (front q + 1) mod capacity q" "size_q q' = capacity q"
      by simp_all
    with c show ?thesis by (simp add: get_size_def get_capacity_def)
  qed
  have part: "get_size q' = get_size q + 1 \<and> contents q' = contents q @ [v]"
    if "\<not> is_full q"
  proof -
    from that inv have lt: "size_q q < capacity q" by (simp add: is_full_def invar_def)
    have c: "contents q' = contents q @ [v]"
      using contents_enqueue_not_full [OF inv lt, of v] by (simp only: q')
    have "q' = notify (Enqueued v)
             (q\<lparr>front := (if size_q q = 0 then 0 else front q),
                rear := (if size_q q = 0 then 0 else (front q + size_q q) mod capacity q),
                arr := (arr q)[nat (if size_q q = 0 then 0 else (front q + size_q q) mod capacity q) := v],
                size_q := size_q q + 1\<rparr>)"
      using enqueue_not_full [OF inv lt, of v] e by simp
    then have "size_q q' = size_q q + 1" by simp
    with c show ?thesis by (simp add: get_size_def)
  qed
  from e g full part hf(2)
  show "\<exists>xs q'. get_all_elements q = (Inr xs, q) \<and> enqueue v q = (Inr (), q') \<and>
         get_capacity q' = get_capacity q \<and>
         (is_full q \<longrightarrow>
            get_size q' = get_capacity q \<and>
            front q' = (front q + 1) mod capacity q \<and>
            get_all_elements q' = (Inr (tl xs @ [v]), q')) \<and>
         (\<not> is_full q \<longrightarrow>
            get_size q' = get_size q + 1 \<and>
            get_all_elements q' = (Inr (xs @ [v]), q'))"
    by (intro exI [of _ "contents q"] exI [of _ q']) (simp add: get_capacity_def)
next
  assume "lib_reachable d l \<and> 0 < l_size l"
  then have "lib_reachable d l" "0 < l_size l" by simp_all
  from lib_reachable_same_queue [OF this] obtain q where sq: "same_queue q l" by blast
  then have inv: "invar q" and cap: "0 < capacity q" and sz: "l_size l = capacity q"
    by (simp_all add: same_queue_def)
  obtain r l' where e0: "lib_enqueue d v l = (r, l')" by (cases "lib_enqueue d v l")
  then have l': "snd (lib_enqueue d v l) = l'" and r: "fst (lib_enqueue d v l) = r"
    by simp_all
  note lf = lib_enqueue_fields [OF sq, of d v, unfolded l' r]
  have e: "lib_enqueue d v l = (Inr (), l')" using e0 lf(1) by simp
  from sq have "same_queue (snd (enqueue v q)) (snd (lib_enqueue d v l))"
    by (rule same_queue_enqueue)
  then have sq': "same_queue (snd (enqueue v q)) l'" by (simp only: l')
  note c = same_queue_contents [OF sq] same_queue_contents [OF sq']
  note f = same_queue_is_full [OF sq]
  have full: "length (lib_contents l') = nat (l_size l) \<and>
      lib_contents l' = tl (lib_contents l) @ [v]" if "lib_is_full l = Inr True"
  proof -
    from that f have s: "size_q q = capacity q" by (simp add: is_full_def)
    from contents_enqueue_full [OF inv s cap, of v] c sz s cap
    show ?thesis by (simp add: nat_diff_distrib)
  qed
  have part: "lib_contents l' = lib_contents l @ [v]" if "lib_is_full l = Inr False"
  proof -
    from that f inv have lt: "size_q q < capacity q" by (simp add: is_full_def invar_def)
    from contents_enqueue_not_full [OF inv lt, of v] c
    show ?thesis by simp
  qed
  from e lf(4) full part
  show "\<exists>l'. lib_enqueue d v l = (Inr (), l') \<and> l_size l' = l_size l \<and>
         (lib_is_full l = Inr True \<longrightarrow>
            length (lib_contents l') = nat (l_size l) \<and>
            lib_contents l' = tl (lib_contents l) @ [v]) \<and>
         (lib_is_full l = Inr False \<longrightarrow> lib_contents l' = lib_contents l @ [v])"
    by (intro exI [of _ l']) blast
qed

section \<open>The claims\<close>

text \<open>
  C1. A queue that the header implementation has constructed with a capacity of at
  least 1 can reach capacity 0: \<^verbatim>\<open>resize(0)\<close> on an empty queue returns. In that
  state \<^verbatim>\<open>enqueue\<close> finds \<open>size == capacity\<close>, takes the branch for a full queue and
  computes \<open>(front + 1) % 0\<close>: the call does not succeed. (Lemma \<open>enqueue_effect\<close>
  holds what \<^verbatim>\<open>enqueue\<close> does while the capacity is at least 1.)
\<close>

theorem enqueue_after_resize_to_zero:
  "circular_queue (0::int) 3 False =
     Inr \<lparr>arr = [0, 0, 0], front = - 1, rear = - 1, size_q = 0, capacity = 3,
          logger = False, logged = []\<rparr> \<and>
   run (0::int) [Enqueue 1, Dequeue, Resize 0, Enqueue 4]
     \<lparr>arr = [0, 0, 0], front = - 1, rear = - 1, size_q = 0, capacity = 3,
      logger = False, logged = []\<rparr> =
     ([Inr Done, Inr (Element 1), Inr Done, Inl Undefined_Behaviour],
      \<lparr>arr = [], front = 0, rear = - 1, size_q = 0, capacity = 0,
       logger = False, logged = []\<rparr>) \<and>
   reachable (0::int)
     \<lparr>arr = [], front = 0, rear = - 1, size_q = 0, capacity = 0,
      logger = False, logged = []\<rparr> \<and>
   is_full \<lparr>arr = [], front = 0, rear = - 1, size_q = 0, capacity = 0,
      logger = False, logged = ([] :: int event list)\<rparr>"
proof -
  let ?fresh = "\<lparr>arr = [0, 0, 0::int], front = - 1, rear = - 1, size_q = 0, capacity = 3,
      logger = False, logged = []\<rparr>"
  let ?z = "\<lparr>arr = ([] :: int list), front = 0, rear = - 1, size_q = 0, capacity = 0,
      logger = False, logged = []\<rparr>"
  have c: "circular_queue (0::int) 3 False = Inr ?fresh"
    by (simp add: eval_defs numeral_3_eq_3)
  have r3: "run (0::int) [Enqueue 1, Dequeue, Resize 0] ?fresh =
      ([Inr Done, Inr (Element 1), Inr Done], ?z)"
    by (simp add: eval_defs resize_loop.simps)
  have r4: "run (0::int) [Enqueue 1, Dequeue, Resize 0, Enqueue 4] ?fresh =
      ([Inr Done, Inr (Element 1), Inr Done, Inl Undefined_Behaviour], ?z)"
    by (simp add: eval_defs resize_loop.simps)
  from c r3 have "reachable 0 ?z"
    by (rule reachable_from_constructor) simp
  with c r4 show ?thesis by (simp add: is_full_def)
qed

text \<open>
  C2. As stated, the claim fails on the library implementation, whose \<^verbatim>\<open>dequeue\<close>
  is written to return \<^verbatim>\<open>T()\<close> on an empty queue.
\<close>

theorem lib_dequeue_empty_returns_default:
  "lib_circular_queue (0::int) 3 True =
     Inr \<lparr>l_arr = [0, 0, 0], l_front = - 1, l_rear = - 1, l_size = 3,
          l_logger = True, l_logged = []\<rparr> \<and>
   lib_is_empty \<lparr>l_arr = [0::int, 0, 0], l_front = - 1, l_rear = - 1, l_size = 3,
          l_logger = True, l_logged = []\<rparr> \<and>
   lib_dequeue (0::int)
     \<lparr>l_arr = [0, 0, 0], l_front = - 1, l_rear = - 1, l_size = 3,
      l_logger = True, l_logged = []\<rparr> =
     (Inr 0,
      \<lparr>l_arr = [0, 0, 0], l_front = - 1, l_rear = - 1, l_size = 3,
       l_logger = True, l_logged = [Cannot_Dequeue]\<rparr>)"
  by (simp add: lib_eval_defs numeral_3_eq_3)

text \<open>
  C2, amended. On an empty queue the \<^verbatim>\<open>dequeue\<close> of the header implementation throws
  \<^verbatim>\<open>underflow_error\<close>, returns no value and leaves the object, logger messages
  included, as it was. The \<^verbatim>\<open>dequeue\<close> of the library implementation notifies the
  logger, if there is one, and returns \<^verbatim>\<open>T()\<close>; the indices stay at \<open>-1\<close>.
\<close>

theorem dequeue_on_empty:
  "(is_empty q \<longrightarrow> dequeue q = (Inl Underflow_Error, q)) \<and>
   (lib_is_empty l \<longrightarrow> lib_dequeue d l = (Inr d, lib_notify Cannot_Dequeue l))"
  by (simp add: dequeue_def lib_dequeue_def)

theorem dequeue_on_empty_witness:
  "is_empty \<lparr>arr = [0::int, 0], front = - 1, rear = - 1, size_q = 0, capacity = 2,
      logger = True, logged = []\<rparr> \<and>
   dequeue \<lparr>arr = [0::int, 0], front = - 1, rear = - 1, size_q = 0, capacity = 2,
      logger = True, logged = []\<rparr> =
     (Inl Underflow_Error,
      \<lparr>arr = [0::int, 0], front = - 1, rear = - 1, size_q = 0, capacity = 2,
       logger = True, logged = []\<rparr>) \<and>
   lib_is_empty \<lparr>l_arr = [0::int, 0], l_front = - 1, l_rear = - 1, l_size = 2,
      l_logger = False, l_logged = []\<rparr> \<and>
   lib_dequeue (0::int)
     \<lparr>l_arr = [0, 0], l_front = - 1, l_rear = - 1, l_size = 2,
      l_logger = False, l_logged = []\<rparr> =
     (Inr 0,
      \<lparr>l_arr = [0, 0], l_front = - 1, l_rear = - 1, l_size = 2,
       l_logger = False, l_logged = []\<rparr>)"
  using dequeue_on_empty
    [of "\<lparr>arr = [0::int, 0], front = - 1, rear = - 1, size_q = 0, capacity = 2,
          logger = True, logged = []\<rparr>"
        "\<lparr>l_arr = [0::int, 0], l_front = - 1, l_rear = - 1, l_size = 2,
          l_logger = False, l_logged = []\<rparr>" 0]
  by (simp add: is_empty_def lib_is_empty_def lib_notify_def)




text \<open>
  C4. \<^verbatim>\<open>resize\<close> of the header implementation tests only \<open>new_capacity < size\<close>. On an
  empty queue \<^verbatim>\<open>resize(0)\<close> passes the test: the call returns, the capacity is 0 and
  the array has no slot. The next \<^verbatim>\<open>enqueue\<close> finds the queue full and computes
  \<open>(front + 1) % 0\<close>. (Lemma \<open>resize_effect\<close> holds what \<^verbatim>\<open>resize\<close> does otherwise.)
\<close>

theorem resize_to_zero_on_empty:
  "circular_queue (0::int) 1 False =
     Inr \<lparr>arr = [0], front = - 1, rear = - 1, size_q = 0, capacity = 1,
          logger = False, logged = []\<rparr> \<and>
   resize (0::int) 0
     \<lparr>arr = [0], front = - 1, rear = - 1, size_q = 0, capacity = 1,
      logger = False, logged = []\<rparr> =
     (Inr (),
      \<lparr>arr = [], front = 0, rear = - 1, size_q = 0, capacity = 0,
       logger = False, logged = []\<rparr>) \<and>
   enqueue (7::int)
     \<lparr>arr = [], front = 0, rear = - 1, size_q = 0, capacity = 0,
      logger = False, logged = []\<rparr> =
     (Inl Undefined_Behaviour,
      \<lparr>arr = [], front = 0, rear = - 1, size_q = 0, capacity = 0,
       logger = False, logged = []\<rparr>)"
  by (simp add: eval_defs resize_loop.simps)

text \<open>
  C5. Enqueueing the values of a list \<open>vs\<close> with at most \<open>n\<close> elements into a queue
  freshly constructed with capacity \<open>n\<close> by the header implementation succeeds; after
  it, \<^verbatim>\<open>get_all_elements\<close> returns exactly \<open>vs\<close>, in the order of the enqueues, and
  \<^verbatim>\<open>get_size\<close> returns the length of \<open>vs\<close>. The vector is returned by value: the call
  leaves the queue as it was, and nothing done to the result reaches the queue.
\<close>

theorem snapshot_after_enqueues:
  assumes "circular_queue d n cb = Inr q0" "int (length vs) \<le> n"
  shows "\<exists>q. enqueue_all vs q0 = (Inr (), q) \<and>
             get_all_elements q = (Inr vs, q) \<and>
             get_size q = int (length vs)"
proof -
  from assms(1) have inv0: "invar q0" by (rule invar_ctor)
  from assms(1) have fresh: "size_q q0 = 0" "capacity q0 = n" "contents q0 = []"
    by (auto simp: circular_queue_def contents_def split: if_splits)
  with assms(2) have "size_q q0 + int (length vs) \<le> capacity q0" by simp
  then have fits: "size_q q0 + int (length vs) \<le> capacity q0" .
  with inv0 obtain q where q: "enqueue_all vs q0 = (Inr (), q)" "invar q"
    "contents q = contents q0 @ vs" "size_q q = size_q q0 + int (length vs)"
    using enqueue_all_contents by blast
  from fresh(1) have "size_q q0 = 0 \<or> front q0 = 0" by simp
  with inv0 fits have "size_q (snd (enqueue_all vs q0)) = 0 \<or> front (snd (enqueue_all vs q0)) = 0"
    by (rule enqueue_all_front)
  with q(1) have "reads_in_range q" by (simp add: reads_in_range_front)
  with q fresh show ?thesis
    by (simp add: get_all_elements_contents get_size_def)
qed

theorem snapshot_after_enqueues_witness:
  "circular_queue (0::int) 3 False =
     Inr \<lparr>arr = [0, 0, 0], front = - 1, rear = - 1, size_q = 0, capacity = 3,
          logger = False, logged = []\<rparr> \<and>
   int (length [10, 20, 30 :: int]) \<le> 3 \<and>
   (\<exists>q. enqueue_all [10, 20, 30 :: int]
          \<lparr>arr = [0, 0, 0], front = - 1, rear = - 1, size_q = 0, capacity = 3,
           logger = False, logged = []\<rparr> = (Inr (), q) \<and>
        get_all_elements q = (Inr [10, 20, 30], q) \<and> get_size q = 3)"
proof -
  have c: "circular_queue (0::int) 3 False =
     Inr \<lparr>arr = [0, 0, 0], front = - 1, rear = - 1, size_q = 0, capacity = 3,
          logger = False, logged = []\<rparr>"
    by (simp add: eval_defs numeral_3_eq_3)
  have l: "int (length [10, 20, 30 :: int]) \<le> 3" by simp
  from snapshot_after_enqueues [OF c l] c show ?thesis by simp
qed

text \<open>
  C6. As stated, the claim fails on the library implementation: its constructor has
  no check, and \<^verbatim>\<open>new T[0]\<close> succeeds.
\<close>

theorem lib_constructor_accepts_zero:
  "lib_circular_queue (0::int) 0 False =
     Inr \<lparr>l_arr = [], l_front = - 1, l_rear = - 1, l_size = 0,
          l_logger = False, l_logged = []\<rparr>"
  by (simp add: lib_circular_queue_def)

text \<open>
  C6, amended. The constructor of the header implementation throws
  \<^verbatim>\<open>invalid_argument\<close> for every \<open>n \<le> 0\<close>; a queue it returns has capacity
  \<open>n \<ge> 1\<close> and is empty, with count 0. A queue that the constructor of the library
  implementation returns is empty as well; that constructor has no check of the
  capacity.
\<close>

theorem construction:
  "(n \<le> 0 \<longrightarrow> circular_queue (d::'a) n cb = Inl Invalid_Argument) \<and>
   (\<forall>q. circular_queue d n cb = Inr q \<longrightarrow>
        capacity q = n \<and> 1 \<le> capacity q \<and> size_q q = 0 \<and> is_empty q \<and> contents q = []) \<and>
   (\<forall>l. lib_circular_queue (fill::'a) n cb = Inr l \<longrightarrow> lib_is_empty l \<and> lib_contents l = [])"
  by (auto simp: circular_queue_def lib_circular_queue_def is_empty_def lib_is_empty_def
      contents_def lib_contents_def lib_count_def split: if_splits)

theorem construction_witness:
  "(0::int) \<le> 0 \<and> circular_queue (0::int) 0 True = Inl Invalid_Argument \<and>
   (0::int) < 3 \<and>
   circular_queue (0::int) 3 True =
     Inr \<lparr>arr = [0, 0, 0], front = - 1, rear = - 1, size_q = 0, capacity = 3,
          logger = True, logged = []\<rparr> \<and>
   is_empty \<lparr>arr = [0::int, 0, 0], front = - 1, rear = - 1, size_q = 0, capacity = 3,
          logger = True, logged = []\<rparr> \<and>
   lib_circular_queue (0::int) 3 True =
     Inr \<lparr>l_arr = [0, 0, 0], l_front = - 1, l_rear = - 1, l_size = 3,
          l_logger = True, l_logged = []\<rparr> \<and>
   lib_is_empty \<lparr>l_arr = [0::int, 0, 0], l_front = - 1, l_rear = - 1, l_size = 3,
          l_logger = True, l_logged = []\<rparr>"
proof -
  have c: "circular_queue (0::int) 3 True =
     Inr \<lparr>arr = [0, 0, 0], front = - 1, rear = - 1, size_q = 0, capacity = 3,
          logger = True, logged = []\<rparr>"
    by (simp add: eval_defs numeral_3_eq_3)
  have l: "lib_circular_queue (0::int) 3 True =
     Inr \<lparr>l_arr = [0, 0, 0], l_front = - 1, l_rear = - 1, l_size = 3,
          l_logger = True, l_logged = []\<rparr>"
    by (simp add: lib_eval_defs numeral_3_eq_3)
  from construction [where n = 0 and d = "0::int" and cb = True and fill = "0::int"]
    construction [where n = 3 and d = "0::int" and cb = True and fill = "0::int"] c l
  show ?thesis by simp
qed

text \<open>
  C7. In every reachable state of the header implementation: on an empty queue
  \<^verbatim>\<open>peek\<close> throws \<^verbatim>\<open>underflow_error\<close>; on a non-empty queue it returns the value
  at \<open>front\<close>, the oldest element, and leaves the whole object as it was (capacity,
  count, indices, array and logger messages); a \<^verbatim>\<open>dequeue\<close> after the \<^verbatim>\<open>peek\<close>
  returns the same value and reduces the size by exactly 1.
\<close>

theorem peek_then_dequeue:
  assumes "reachable d q"
  shows "(is_empty q \<longrightarrow> peek q = (Inl Underflow_Error, q)) \<and>
         (\<not> is_empty q \<longrightarrow>
            peek q = (Inr (arr q ! nat (front q)), q) \<and>
            arr q ! nat (front q) = hd (contents q) \<and>
            fst (dequeue (snd (peek q))) = fst (peek q) \<and>
            get_size (snd (dequeue (snd (peek q)))) = get_size q - 1)"
proof (cases "size_q q = 0")
  case True
  then show ?thesis by (simp add: peek_empty is_empty_def)
next
  case False
  from assms have inv: "invar q" by (rule reachable_invar)
  with False have pos: "0 < size_q q" by (simp add: invar_def)
  from inv pos have "peek q = (Inr (arr q ! nat (front q)), q)"
    by (simp add: peek_nonempty hd_contents)
  with inv pos False show ?thesis
    by (simp add: is_empty_def hd_contents dequeue_nonempty get_size_def)
qed

theorem peek_then_dequeue_witness:
  "reachable (0::int)
     \<lparr>arr = [4, 2, 3], front = 1, rear = 0, size_q = 3, capacity = 3,
      logger = True, logged = [Enqueued 1, Enqueued 2, Enqueued 3, Enqueued 4]\<rparr> \<and>
   peek \<lparr>arr = [4, 2, 3], front = 1, rear = 0, size_q = 3, capacity = 3,
      logger = True, logged = [Enqueued 1, Enqueued 2, Enqueued 3, Enqueued 4]\<rparr> =
     (Inr (2::int),
      \<lparr>arr = [4, 2, 3], front = 1, rear = 0, size_q = 3, capacity = 3,
      logger = True, logged = [Enqueued 1, Enqueued 2, Enqueued 3, Enqueued 4]\<rparr>) \<and>
   fst (dequeue \<lparr>arr = [4, 2, 3], front = 1, rear = 0, size_q = 3, capacity = 3,
      logger = True, logged = [Enqueued 1, Enqueued 2, Enqueued 3, Enqueued 4]\<rparr>) =
     Inr (2::int) \<and>
   reachable (0::int)
     \<lparr>arr = [0, 0], front = - 1, rear = - 1, size_q = 0, capacity = 2,
      logger = False, logged = []\<rparr> \<and>
   peek \<lparr>arr = [0, 0], front = - 1, rear = - 1, size_q = 0, capacity = 2,
      logger = False, logged = ([] :: int event list)\<rparr> =
     (Inl Underflow_Error,
      \<lparr>arr = [0::int, 0], front = - 1, rear = - 1, size_q = 0, capacity = 2,
      logger = False, logged = []\<rparr>)"
proof -
  let ?q = "\<lparr>arr = [4, 2, 3], front = 1, rear = 0, size_q = 3, capacity = 3,
      logger = True, logged = [Enqueued 1, Enqueued 2, Enqueued 3, Enqueued (4::int)]\<rparr>"
  let ?e = "\<lparr>arr = [0::int, 0], front = - 1, rear = - 1, size_q = 0, capacity = 2,
      logger = False, logged = []\<rparr>"
  have "circular_queue (0::int) 3 True =
          Inr \<lparr>arr = [0, 0, 0], front = - 1, rear = - 1, size_q = 0, capacity = 3,
               logger = True, logged = []\<rparr>"
    by (simp add: eval_defs numeral_3_eq_3)
  moreover have "run 0 [Enqueue 1, Enqueue 2, Enqueue 3, Enqueue 4]
          \<lparr>arr = [0, 0, 0], front = - 1, rear = - 1, size_q = 0, capacity = 3,
           logger = True, logged = []\<rparr> =
        ([Inr Done, Inr Done, Inr Done, Inr Done], ?q)"
    by (simp add: eval_defs)
  ultimately have r: "reachable 0 ?q"
    by (rule reachable_from_constructor) simp
  have "circular_queue (0::int) 2 False = Inr ?e"
    by (simp add: eval_defs numeral_2_eq_2)
  then have e: "reachable 0 ?e" by (rule reachable.constructed)
  from peek_then_dequeue [OF r] peek_then_dequeue [OF e] r e show ?thesis
    by (auto simp: is_empty_def)
qed

text \<open>
  C8. As stated, the claim fails on the library implementation: its \<^verbatim>\<open>peek\<close>
  notifies the logger, and its \<^verbatim>\<open>enqueue\<close> into a full queue notifies twice, once
  through the \<^verbatim>\<open>dequeue\<close> it calls.
\<close>

theorem lib_peek_notifies:
  "lib_circular_queue (0::int) 3 True =
     Inr \<lparr>l_arr = [0, 0, 0], l_front = - 1, l_rear = - 1, l_size = 3,
          l_logger = True, l_logged = []\<rparr> \<and>
   lib_run (0::int) [Lib_Enqueue 1, Lib_Enqueue 2, Lib_Enqueue 3, Lib_Peek, Lib_Enqueue 4]
     \<lparr>l_arr = [0, 0, 0], l_front = - 1, l_rear = - 1, l_size = 3,
      l_logger = True, l_logged = []\<rparr> =
     ([Inr Done, Inr Done, Inr Done, Inr (Element 1), Inr Done],
      \<lparr>l_arr = [4, 2, 3], l_front = 1, l_rear = 0, l_size = 3, l_logger = True,
       l_logged = [Enqueued 1, Enqueued 2, Enqueued 3, Peeked_At 1,
                   Dequeued 1, Enqueued 4]\<rparr>)"
  by (simp add: lib_eval_defs numeral_3_eq_3)

text \<open>
  C8, amended. In the header implementation with a logger present, a call of
  \<^verbatim>\<open>enqueue\<close>, \<^verbatim>\<open>dequeue\<close>, \<^verbatim>\<open>clear\<close> or \<^verbatim>\<open>resize\<close> that returns adds exactly one
  message to what the logger has received, an \<^verbatim>\<open>enqueue\<close> into a full queue
  included; such a call that throws adds none; and \<^verbatim>\<open>peek\<close>, \<^verbatim>\<open>get_element_at\<close>,
  \<^verbatim>\<open>get_all_elements\<close>, \<^verbatim>\<open>is_full\<close>, \<^verbatim>\<open>is_empty\<close>, \<^verbatim>\<open>get_size\<close> and
  \<^verbatim>\<open>get_capacity\<close> add none and leave the queue as it was.
\<close>

theorem one_notification_per_mutation:
  assumes "logger q" "invoke d c q = (r, q')"
  shows "(\<exists>es. logged q' = logged q @ es \<and>
               length es = (if mutating c \<and> \<not> isl r then 1 else 0)) \<and>
         (\<not> mutating c \<longrightarrow> q' = q)"
proof (cases c)
  case (Enqueue v)
  obtain r0 q0 where e: "enqueue v q = (r0, q0)" by (cases "enqueue v q")
  with assms(2) Enqueue have "r = map_sum id (\<lambda>_. Done) r0" "q' = q0" by simp_all
  with assms(1) e logged_enqueue [of q v r0 q0] Enqueue show ?thesis
    by (cases r0) auto
next
  case Dequeue
  obtain r0 q0 where e: "dequeue q = (r0, q0)" by (cases "dequeue q")
  with assms(2) Dequeue have "r = map_sum id Element r0" "q' = q0" by simp_all
  with assms(1) e logged_dequeue [of q r0 q0] Dequeue show ?thesis
    by (cases r0) auto
next
  case Clear
  obtain r0 q0 where e: "clear q = (r0, q0)" by (cases "clear q")
  with assms(2) Clear have "r = map_sum id (\<lambda>_. Done) r0" "q' = q0" by simp_all
  with assms(1) e logged_clear [of q r0 q0] Clear show ?thesis
    by (cases r0) auto
next
  case (Resize k)
  obtain r0 q0 where e: "resize d k q = (r0, q0)" by (cases "resize d k q")
  with assms(2) Resize have "r = map_sum id (\<lambda>_. Done) r0" "q' = q0" by simp_all
  with assms(1) e logged_resize [of q d k r0 q0] Resize show ?thesis
    by (cases r0) auto
next
  case Peek
  with assms(2) show ?thesis
    by (auto simp: case_prod_beta read_only)
next
  case (Get_Element_At i)
  with assms(2) show ?thesis
    by (auto simp: case_prod_beta read_only)
next
  case Get_All_Elements
  with assms(2) show ?thesis
    by (auto simp: case_prod_beta read_only)
qed (use assms(2) in auto)

theorem one_notification_per_mutation_witness:
  "logger \<lparr>arr = [1, 2, 3::int], front = 0, rear = 2, size_q = 3, capacity = 3,
      logger = True, logged = [Enqueued 1, Enqueued 2, Enqueued 3]\<rparr> \<and>
   invoke (0::int) (Enqueue 4)
     \<lparr>arr = [1, 2, 3], front = 0, rear = 2, size_q = 3, capacity = 3,
      logger = True, logged = [Enqueued 1, Enqueued 2, Enqueued 3]\<rparr> =
     (Inr Done,
      \<lparr>arr = [4, 2, 3], front = 1, rear = 0, size_q = 3, capacity = 3,
       logger = True, logged = [Enqueued 1, Enqueued 2, Enqueued 3, Enqueued 4]\<rparr>) \<and>
   (\<exists>es. [Enqueued 1, Enqueued 2, Enqueued 3, Enqueued (4::int)] =
           [Enqueued 1, Enqueued 2, Enqueued 3] @ es \<and> length es = 1) \<and>
   \<not> mutating (Peek :: int call) \<and>
   invoke (0::int) Peek
     \<lparr>arr = [1, 2, 3], front = 0, rear = 2, size_q = 3, capacity = 3,
      logger = True, logged = [Enqueued 1, Enqueued 2, Enqueued 3]\<rparr> =
     (Inr (Element 1),
      \<lparr>arr = [1, 2, 3], front = 0, rear = 2, size_q = 3, capacity = 3,
       logger = True, logged = [Enqueued 1, Enqueued 2, Enqueued 3]\<rparr>)"
proof -
  let ?q = "\<lparr>arr = [1, 2, 3::int], front = 0, rear = 2, size_q = 3, capacity = 3,
      logger = True, logged = [Enqueued 1, Enqueued 2, Enqueued 3]\<rparr>"
  let ?q' = "\<lparr>arr = [4, 2, 3::int], front = 1, rear = 0, size_q = 3, capacity = 3,
       logger = True, logged = [Enqueued 1, Enqueued 2, Enqueued 3, Enqueued 4]\<rparr>"
  have l: "logger ?q" by simp
  have i: "invoke (0::int) (Enqueue 4) ?q = (Inr Done, ?q')"
    by (simp add: eval_defs)
  have p: "invoke (0::int) Peek ?q = (Inr (Element 1), ?q)"
    by (simp add: eval_defs)
  from one_notification_per_mutation [OF l i] one_notification_per_mutation [OF l p] l i p
  show ?thesis by simp
qed

text \<open>
  C9. As stated, the claim fails: on an empty queue the \<^verbatim>\<open>dequeue\<close> and the \<^verbatim>\<open>peek\<close>
  of the header implementation throw, those of the library implementation return
  \<^verbatim>\<open>T()\<close>, so the two do not yield the same results for every sequence of calls.
\<close>

theorem variants_differ_on_empty_queue:
  "circular_queue (0::int) 3 False =
     Inr \<lparr>arr = [0, 0, 0], front = - 1, rear = - 1, size_q = 0, capacity = 3,
          logger = False, logged = []\<rparr> \<and>
   lib_circular_queue (0::int) 3 False =
     Inr \<lparr>l_arr = [0, 0, 0], l_front = - 1, l_rear = - 1, l_size = 3,
          l_logger = False, l_logged = []\<rparr> \<and>
   fst (run (0::int) (map header_call [Lib_Dequeue, Lib_Peek])
          \<lparr>arr = [0, 0, 0], front = - 1, rear = - 1, size_q = 0, capacity = 3,
           logger = False, logged = []\<rparr>) =
     [Inl Underflow_Error, Inl Underflow_Error] \<and>
   fst (lib_run (0::int) [Lib_Dequeue, Lib_Peek]
          \<lparr>l_arr = [0, 0, 0], l_front = - 1, l_rear = - 1, l_size = 3,
           l_logger = False, l_logged = []\<rparr>) =
     [Inr (Element 0), Inr (Element 0)]"
  by (simp add: eval_defs lib_eval_defs numeral_3_eq_3)

text \<open>
  C9, amended. Construct a queue of either implementation with the same capacity and
  make the same sequence of \<^verbatim>\<open>enqueue\<close>, \<^verbatim>\<open>dequeue\<close>, \<^verbatim>\<open>peek\<close>, \<^verbatim>\<open>clear\<close>,
  \<^verbatim>\<open>is_full\<close> and \<^verbatim>\<open>is_empty\<close> calls on both. Then every call returns the same
  result in both, except that where the header implementation throws
  \<^verbatim>\<open>underflow_error\<close> (\<^verbatim>\<open>dequeue\<close> or \<^verbatim>\<open>peek\<close> on an empty queue) the library
  implementation returns \<^verbatim>\<open>T()\<close>; no call has undefined behaviour; and at the end the
  logical contents of the header queue are the sequence of occupied slots of the
  library queue, which is also what \<^verbatim>\<open>get_all_elements\<close> of the header queue returns
  when the capacity is at most \<open>2^30\<close> (above it, \<open>front + i\<close> can overflow in that
  call). In particular an \<^verbatim>\<open>enqueue\<close> into a full queue evicts the same element in
  both.
\<close>

theorem variants_agree:
  assumes "circular_queue d n cb = Inr q0" "lib_circular_queue fill n cb' = Inr l0"
  shows "fst (lib_run d cs l0) =
           map (default_on_underflow d) (fst (run d (map header_call cs) q0)) \<and>
         Inl Undefined_Behaviour \<notin> set (fst (run d (map header_call cs) q0)) \<and>
         contents (snd (run d (map header_call cs) q0)) =
           lib_contents (snd (lib_run d cs l0)) \<and>
         (n \<le> 1073741824 \<longrightarrow>
            get_all_elements (snd (run d (map header_call cs) q0)) =
              (Inr (lib_contents (snd (lib_run d cs l0))),
               snd (run d (map header_call cs) q0)))"
proof -
  from assms have sq: "same_queue q0 l0" by (rule same_queue_constructed)
  note sim = sim_run [OF sq, of d cs]
  from sim have sq': "same_queue (snd (run d (map header_call cs) q0)) (snd (lib_run d cs l0))"
    by simp
  then have inv: "invar (snd (run d (map header_call cs) q0))"
    and cap: "capacity (snd (run d (map header_call cs) q0)) = l_size (snd (lib_run d cs l0))"
    by (simp_all add: same_queue_def)
  from assms(2) have "l_size l0 = n" by (auto simp: lib_circular_queue_def split: if_splits)
  with cap have cap': "capacity (snd (run d (map header_call cs) q0)) = n"
    by (simp add: l_size_lib_run)
  have "get_all_elements (snd (run d (map header_call cs) q0)) =
      (Inr (contents (snd (run d (map header_call cs) q0))),
       snd (run d (map header_call cs) q0))" if "n \<le> 1073741824"
    using inv that cap' by (intro get_all_elements_contents reads_in_range_capacity) simp_all
  with same_queue_contents [OF sq'] sim show ?thesis by simp
qed

theorem variants_agree_witness:
  "circular_queue (0::int) 2 True =
     Inr \<lparr>arr = [0, 0], front = - 1, rear = - 1, size_q = 0, capacity = 2,
          logger = True, logged = []\<rparr> \<and>
   lib_circular_queue (0::int) 2 True =
     Inr \<lparr>l_arr = [0, 0], l_front = - 1, l_rear = - 1, l_size = 2,
          l_logger = True, l_logged = []\<rparr> \<and>
   (2::int) \<le> 1073741824 \<and>
   fst (run (0::int)
          (map header_call
             [Lib_Enqueue 1, Lib_Enqueue 2, Lib_Is_Full, Lib_Enqueue 3, Lib_Peek,
              Lib_Dequeue, Lib_Dequeue, Lib_Dequeue, Lib_Enqueue 5, Lib_Enqueue 6,
              Lib_Enqueue 7])
          \<lparr>arr = [0, 0], front = - 1, rear = - 1, size_q = 0, capacity = 2,
           logger = True, logged = []\<rparr>) =
     [Inr Done, Inr Done, Inr (Flag True), Inr Done, Inr (Element 2),
      Inr (Element 2), Inr (Element 3), Inl Underflow_Error, Inr Done, Inr Done,
      Inr Done] \<and>
   fst (lib_run (0::int)
          [Lib_Enqueue 1, Lib_Enqueue 2, Lib_Is_Full, Lib_Enqueue 3, Lib_Peek,
           Lib_Dequeue, Lib_Dequeue, Lib_Dequeue, Lib_Enqueue 5, Lib_Enqueue 6,
           Lib_Enqueue 7]
          \<lparr>l_arr = [0, 0], l_front = - 1, l_rear = - 1, l_size = 2,
           l_logger = True, l_logged = []\<rparr>) =
     [Inr Done, Inr Done, Inr (Flag True), Inr Done, Inr (Element 2),
      Inr (Element 2), Inr (Element 3), Inr (Element 0), Inr Done, Inr Done,
      Inr Done] \<and>
   lib_contents (snd (lib_run (0::int)
          [Lib_Enqueue 1, Lib_Enqueue 2, Lib_Is_Full, Lib_Enqueue 3, Lib_Peek,
           Lib_Dequeue, Lib_Dequeue, Lib_Dequeue, Lib_Enqueue 5, Lib_Enqueue 6,
           Lib_Enqueue 7]
          \<lparr>l_arr = [0, 0], l_front = - 1, l_rear = - 1, l_size = 2,
           l_logger = True, l_logged = []\<rparr>)) = [6, 7] \<and>
   fst (get_all_elements (snd (run (0::int)
          (map header_call
             [Lib_Enqueue 1, Lib_Enqueue 2, Lib_Is_Full, Lib_Enqueue 3, Lib_Peek,
              Lib_Dequeue, Lib_Dequeue, Lib_Dequeue, Lib_Enqueue 5, Lib_Enqueue 6,
              Lib_Enqueue 7])
          \<lparr>arr = [0, 0], front = - 1, rear = - 1, size_q = 0, capacity = 2,
           logger = True, logged = []\<rparr>))) = Inr [6, 7]"
proof -
  let ?h = "\<lparr>arr = [0, 0::int], front = - 1, rear = - 1, size_q = 0, capacity = 2,
          logger = True, logged = []\<rparr>"
  let ?l = "\<lparr>l_arr = [0, 0::int], l_front = - 1, l_rear = - 1, l_size = 2,
          l_logger = True, l_logged = []\<rparr>"
  let ?cs = "[Lib_Enqueue 1, Lib_Enqueue 2, Lib_Is_Full, Lib_Enqueue 3, Lib_Peek,
           Lib_Dequeue, Lib_Dequeue, Lib_Dequeue, Lib_Enqueue 5, Lib_Enqueue 6,
           Lib_Enqueue 7 :: int lib_call]"
  have c: "circular_queue (0::int) 2 True = Inr ?h"
    by (simp add: eval_defs numeral_2_eq_2)
  have lc: "lib_circular_queue (0::int) 2 True = Inr ?l"
    by (simp add: lib_eval_defs numeral_2_eq_2)
  have h: "fst (run (0::int) (map header_call ?cs) ?h) =
     [Inr Done, Inr Done, Inr (Flag True), Inr Done, Inr (Element 2),
      Inr (Element 2), Inr (Element 3), Inl Underflow_Error, Inr Done, Inr Done,
      Inr Done]"
    by (simp add: eval_defs)
  have k: "lib_contents (snd (lib_run (0::int) ?cs ?l)) = [6, 7]"
    by code_simp
  from variants_agree [OF c lc, where cs = ?cs] c lc h k show ?thesis by simp
qed

text \<open>
  C10. In every reachable state of the header implementation the count lies between 0
  and the capacity: this holds after construction and after every call of the public
  interface, whether the call returns or throws.
\<close>

theorem size_within_capacity:
  assumes "reachable d q"
  shows "0 \<le> size_q q \<and> size_q q \<le> capacity q \<and>
         (\<forall>c. 0 \<le> size_q (snd (invoke d c q)) \<and>
              size_q (snd (invoke d c q)) \<le> capacity (snd (invoke d c q)))"
proof -
  from assms have inv: "invar q" by (rule reachable_invar)
  have "invar (snd (invoke d c q))" for c using inv by (rule invar_invoke)
  with inv show ?thesis by (simp add: invar_def)
qed

theorem size_within_capacity_witness:
  "reachable (0::int)
     \<lparr>arr = [4, 2, 3], front = 1, rear = 0, size_q = 3, capacity = 3,
      logger = False, logged = []\<rparr> \<and>
   size_q \<lparr>arr = [4, 2, 3], front = 1, rear = 0, size_q = 3, capacity = 3,
      logger = False, logged = []\<rparr> \<le> (3::int)"
proof -
  let ?q = "\<lparr>arr = [4, 2, 3], front = 1, rear = 0, size_q = 3, capacity = 3,
      logger = False, logged = ([] :: int event list)\<rparr>"
  have "circular_queue (0::int) 3 False =
          Inr \<lparr>arr = [0, 0, 0], front = - 1, rear = - 1, size_q = 0, capacity = 3,
               logger = False, logged = []\<rparr>"
    by (simp add: eval_defs numeral_3_eq_3)
  moreover have "run 0 [Enqueue 1, Enqueue 2, Enqueue 3, Enqueue 4]
          \<lparr>arr = [0, 0, 0], front = - 1, rear = - 1, size_q = 0, capacity = 3,
           logger = False, logged = []\<rparr> =
        ([Inr Done, Inr Done, Inr Done, Inr Done], ?q)"
    by (simp add: eval_defs)
  ultimately have r: "reachable 0 ?q"
    by (rule reachable_from_constructor) simp
  from size_within_capacity [OF r] r show ?thesis by simp
qed

end
